theory Spec2Isabelle
  imports Complex_Main "HOL-Library.AList"
begin

section \<open>Python values used by the index\<close>

text \<open>
  A Python \<open>dict\<close> keeps its keys in insertion order, and the order shows in the result of
  \<open>search\<close> (the sort is stable). A dictionary is therefore an association list:
  \<open>map_of\<close> reads a key, \<open>AList.update\<close> is \<open>d[k] = v\<close> (in place when the key is there,
  appended otherwise), \<open>AList.delete\<close> is \<open>del d[k]\<close>, \<open>length\<close> is \<open>len\<close>.
\<close>

type_synonym ('k, 'v) dict = "('k \<times> 'v) list"

type_synonym 'f vector = "(string, 'f) dict"

datatype py_error = ZeroDivisionError | ValueError | OverflowError

definition contains :: "('k, 'v) dict \<Rightarrow> 'k \<Rightarrow> bool" where
  "contains d k = (map_of d k \<noteq> None)"

text \<open>\<open>d[k]\<close> for a key that the caller has just taken from \<open>d\<close> itself.\<close>

definition item :: "('k, 'v) dict \<Rightarrow> 'k \<Rightarrow> 'v" where
  "item d k = the (map_of d k)"

text \<open>
  Reading \<open>d[k]\<close> from a \<open>defaultdict(dict)\<close>: a missing key is inserted with an empty
  dictionary, and the read returns it.
\<close>

definition defaultdict_get ::
  "('k, ('j, 'v) dict) dict \<Rightarrow> 'k \<Rightarrow> ('j, 'v) dict \<times> ('k, ('j, 'v) dict) dict" where
  "defaultdict_get d k =
     (case map_of d k of None \<Rightarrow> ([], d @ [(k, [])]) | Some v \<Rightarrow> (v, d))"

subsection \<open>Floating point\<close>

text \<open>
  The type \<open>'f\<close> stands for the floats of Python, ordered and compared with 0 as Python
  does it (NaN apart). How the operations round is not fixed: they are the fields of a
  record that every numeric function of the model takes as its first argument, and
  nothing is assumed of them. The fields are the quotient of two integers, the
  conversion of an integer in \<open>count * idf\<close>, product, sum and quotient of floats,
  \<open>math.log\<close> and \<open>math.sqrt\<close> inside their domains, \<open>x ** 2\<close>, which raises
  \<open>OverflowError\<close> when the square is out of range, and the order in which Python
  iterates the set \<open>set(vec1.keys()) & set(vec2.keys())\<close>, given the keys of the two
  vectors.
\<close>

record 'f arithmetic =
  int_div :: "nat \<Rightarrow> nat \<Rightarrow> 'f"
  int_to_float :: "nat \<Rightarrow> 'f"
  float_mul :: "'f \<Rightarrow> 'f \<Rightarrow> 'f"
  float_add :: "'f \<Rightarrow> 'f \<Rightarrow> 'f"
  float_div :: "'f \<Rightarrow> 'f \<Rightarrow> 'f"
  float_log :: "'f \<Rightarrow> 'f"
  float_sqrt :: "'f \<Rightarrow> 'f"
  float_square :: "'f \<Rightarrow> py_error + 'f"
  iteration_order :: "string list \<Rightarrow> string list \<Rightarrow> string list"

text \<open>
  What Python adds to the operations: a division raises at a zero divisor, \<open>math.log\<close>
  raises at 0 and below, \<open>math.sqrt\<close> below 0, and \<open>sum\<close> starts from 0.
\<close>

definition py_int_truediv :: "'f arithmetic \<Rightarrow> nat \<Rightarrow> nat \<Rightarrow> py_error + 'f" where
  "py_int_truediv ar a b = (if b = 0 then Inl ZeroDivisionError else Inr (int_div ar a b))"

definition py_truediv :: "('f::{zero,linorder}) arithmetic \<Rightarrow> 'f \<Rightarrow> 'f \<Rightarrow> py_error + 'f" where
  "py_truediv ar x y = (if y = 0 then Inl ZeroDivisionError else Inr (float_div ar x y))"

definition py_log :: "('f::{zero,linorder}) arithmetic \<Rightarrow> 'f \<Rightarrow> py_error + 'f" where
  "py_log ar x = (if x \<le> 0 then Inl ValueError else Inr (float_log ar x))"

definition py_sqrt :: "('f::{zero,linorder}) arithmetic \<Rightarrow> 'f \<Rightarrow> py_error + 'f" where
  "py_sqrt ar x = (if x < 0 then Inl ValueError else Inr (float_sqrt ar x))"

definition py_sum :: "('f::{zero,linorder}) arithmetic \<Rightarrow> 'f list \<Rightarrow> 'f" where
  "py_sum ar xs = foldl (float_add ar) 0 xs"

text \<open>
  The arithmetic of the real numbers, with no rounding and no overflow. It is used where
  an example needs a value, and to read the value of the inverse document frequency.
\<close>

definition real_arithmetic :: "real arithmetic" where
  "real_arithmetic =
     \<lparr>int_div = (\<lambda>a b. real a / real b), int_to_float = real,
      float_mul = (\<lambda>x y. x * y), float_add = (\<lambda>x y. x + y), float_div = (\<lambda>x y. x / y),
      float_log = ln, float_sqrt = sqrt, float_square = (\<lambda>x. Inr (x\<^sup>2)),
      iteration_order = (\<lambda>keys1 keys2. filter (\<lambda>k. k \<in> set keys2) keys1)\<rparr>"

subsection \<open>Lists and strings\<close>

text \<open>The slice \<open>xs[:k]\<close>; a negative \<open>k\<close> counts from the end.\<close>

definition slice_to :: "int \<Rightarrow> 'a list \<Rightarrow> 'a list" where
  "slice_to k xs = (if 0 \<le> k then take (nat k) xs else take (length xs - nat (- k)) xs)"

text \<open>
  \<open>xs.sort(key=lambda x: x[1], reverse=True)\<close>: the list is reversed, sorted by a stable
  sort and reversed again, so that the largest score comes first and entries of equal
  score keep their order.
\<close>

definition sort_by_score :: "('a \<times> 'f::linorder) list \<Rightarrow> ('a \<times> 'f) list" where
  "sort_by_score xs = rev (sort_key snd (rev xs))"

text \<open>
  Whitespace as \<open>str.split()\<close> and \<open>str.strip()\<close> see it, on the code points below 256:
  U+0009..U+000D, U+001C..U+0020, U+0085 and U+00A0.
\<close>

definition is_space :: "char \<Rightarrow> bool" where
  "is_space c = (let n = (of_char c :: nat)
     in (9 \<le> n \<and> n \<le> 13) \<or> (28 \<le> n \<and> n \<le> 32) \<or> n = 133 \<or> n = 160)"

fun split_loop :: "string \<Rightarrow> string \<Rightarrow> string list" where
  "split_loop cur [] = (if cur = [] then [] else [cur])"
| "split_loop cur (c # cs) =
     (if is_space c then (if cur = [] then split_loop [] cs else cur # split_loop [] cs)
      else split_loop (cur @ [c]) cs)"

definition py_split :: "string \<Rightarrow> string list" where
  "py_split s = split_loop [] s"

definition strip :: "string \<Rightarrow> string" where
  "strip s = rev (dropWhile is_space (rev (dropWhile is_space s)))"

text \<open>
  \<open>Counter(words)\<close>: one entry per distinct word, in order of first occurrence, holding
  the number of occurrences.
\<close>

definition count_word :: "string \<Rightarrow> (string, nat) dict \<Rightarrow> (string, nat) dict" where
  "count_word w c = AList.update w (case map_of c w of None \<Rightarrow> 1 | Some n \<Rightarrow> n + 1) c"

definition Counter :: "string list \<Rightarrow> (string, nat) dict" where
  "Counter ws = fold count_word ws []"

section \<open>The index engine (core/document\_indexer.py)\<close>

text \<open>
  \<open>core/text_processor.py\<close> is not part of the sources at hand. Its one function used
  here, \<open>preprocess_text\<close>, is a parameter \<open>pp\<close> of every operation that calls it.
\<close>

record 'f index_state =
  inverted_index :: "(string, (string, nat) dict) dict"
  forward_index :: "(string, (string, nat) dict) dict"
  total_documents :: nat
  document_lengths :: "(string, nat) dict"
  tf_idf_weights :: "(string, 'f vector) dict"
  idf_cache :: "(string, 'f) dict"

definition empty_index :: "'f index_state" where
  "empty_index = \<lparr>inverted_index = [], forward_index = [], total_documents = 0,
     document_lengths = [], tf_idf_weights = [], idf_cache = []\<rparr>"

text \<open>The body of the loop of \<open>add_document\<close>, for one \<open>(word, count)\<close> of the counter.\<close>

definition add_posting :: "string \<Rightarrow> string \<times> nat \<Rightarrow> 'f index_state \<Rightarrow> 'f index_state" where
  "add_posting doc_id wc s =
     (let word = fst wc; count = snd wc;
          (postings, inv) = defaultdict_get (inverted_index s) word;
          inv' = AList.update word (AList.update doc_id count postings) inv;
          (terms, fwd) = defaultdict_get (forward_index s) doc_id;
          fwd' = AList.update doc_id (AList.update word count terms) fwd
      in s\<lparr>inverted_index := inv', forward_index := fwd'\<rparr>)"

definition add_document ::
  "(string \<Rightarrow> string) \<Rightarrow> 'f index_state \<Rightarrow> string \<Rightarrow> string \<Rightarrow> 'f index_state" where
  "add_document pp s doc_id content =
     (let processed_text = pp content in
      if processed_text = [] then s
      else
        let words = py_split processed_text;
            word_counts = Counter words;
            s1 = fold (add_posting doc_id) word_counts s;
            s2 = s1\<lparr>document_lengths :=
                     AList.update doc_id (sum_list (map snd word_counts)) (document_lengths s1)\<rparr>;
            s3 = s2\<lparr>idf_cache := []\<rparr>
        in s3\<lparr>total_documents := length (forward_index s3)\<rparr>)"

text \<open>The body of the loop of \<open>remove_document\<close>, for one word of the removed document.\<close>

definition remove_posting :: "string \<Rightarrow> string \<Rightarrow> 'f index_state \<Rightarrow> 'f index_state" where
  "remove_posting doc_id word s =
     (let (postings, inv) = defaultdict_get (inverted_index s) word in
      if contains postings doc_id then
        let postings' = AList.delete doc_id postings;
            inv' = AList.update word postings' inv
        in if postings' = [] then s\<lparr>inverted_index := AList.delete word inv'\<rparr>
           else s\<lparr>inverted_index := inv'\<rparr>
      else s\<lparr>inverted_index := inv\<rparr>)"

definition remove_document :: "'f index_state \<Rightarrow> string \<Rightarrow> 'f index_state" where
  "remove_document s doc_id =
     (case map_of (forward_index s) doc_id of
        None \<Rightarrow> s
      | Some terms \<Rightarrow>
          let words = map fst terms;
              s1 = s\<lparr>forward_index := AList.delete doc_id (forward_index s)\<rparr>;
              s2 = fold (remove_posting doc_id) words s1;
              s3 = (if contains (document_lengths s2) doc_id
                    then s2\<lparr>document_lengths := AList.delete doc_id (document_lengths s2)\<rparr>
                    else s2);
              s4 = (if contains (tf_idf_weights s3) doc_id
                    then s3\<lparr>tf_idf_weights := AList.delete doc_id (tf_idf_weights s3)\<rparr>
                    else s3);
              s5 = s4\<lparr>idf_cache := []\<rparr>
          in s5\<lparr>total_documents := length (forward_index s5)\<rparr>)"

text \<open>\<open>calculate_tf\<close> reads the state only.\<close>

definition calculate_tf ::
  "('f::{zero,linorder}) arithmetic \<Rightarrow> 'f index_state \<Rightarrow> string \<Rightarrow> string \<Rightarrow> py_error + 'f" where
  "calculate_tf ar s word doc_id =
     (case map_of (forward_index s) doc_id of
        None \<Rightarrow> Inr 0
      | Some terms \<Rightarrow>
          (case map_of terms word of
             None \<Rightarrow> Inr 0
           | Some word_count \<Rightarrow>
               let doc_length = (case map_of (document_lengths s) doc_id of
                                   None \<Rightarrow> 1 | Some n \<Rightarrow> n)
               in py_int_truediv ar word_count doc_length))"

text \<open>\<open>calculate_idf\<close> returns the value and the state with the cache filled.\<close>

definition calculate_idf ::
  "('f::{zero,linorder}) arithmetic \<Rightarrow> 'f index_state \<Rightarrow> string
     \<Rightarrow> py_error + ('f \<times> 'f index_state)" where
  "calculate_idf ar s word =
     (case map_of (idf_cache s) word of
        Some cached \<Rightarrow> Inr (cached, s)
      | None \<Rightarrow>
          (case map_of (inverted_index s) word of
             None \<Rightarrow> Inr (0, s)
           | Some postings \<Rightarrow>
               let doc_frequency = length postings in
               if doc_frequency = 0
               then Inr (0, s\<lparr>idf_cache := AList.update word 0 (idf_cache s)\<rparr>)
               else
                 (case py_int_truediv ar (total_documents s) doc_frequency of
                    Inl e \<Rightarrow> Inl e
                  | Inr ratio \<Rightarrow>
                      (case py_log ar ratio of
                         Inl e \<Rightarrow> Inl e
                       | Inr idf \<Rightarrow>
                           Inr (idf, s\<lparr>idf_cache := AList.update word idf (idf_cache s)\<rparr>)))))"

definition calculate_tf_idf ::
  "('f::{zero,linorder}) arithmetic \<Rightarrow> 'f index_state \<Rightarrow> string \<Rightarrow> string
     \<Rightarrow> py_error + ('f \<times> 'f index_state)" where
  "calculate_tf_idf ar s word doc_id =
     (case calculate_tf ar s word doc_id of
        Inl e \<Rightarrow> Inl e
      | Inr tf \<Rightarrow>
          (case calculate_idf ar s word of
             Inl e \<Rightarrow> Inl e
           | Inr (idf, s') \<Rightarrow> Inr (float_mul ar tf idf, s')))"

fun document_vector_loop ::
  "('f::{zero,linorder}) arithmetic \<Rightarrow> 'f index_state \<Rightarrow> string \<Rightarrow> string list \<Rightarrow> 'f vector
     \<Rightarrow> py_error + ('f vector \<times> 'f index_state)" where
  "document_vector_loop ar s doc_id [] vec = Inr (vec, s)"
| "document_vector_loop ar s doc_id (word # rest) vec =
     (case calculate_tf_idf ar s word doc_id of
        Inl e \<Rightarrow> Inl e
      | Inr (weight, s') \<Rightarrow>
          document_vector_loop ar s' doc_id rest (AList.update word weight vec))"

definition get_document_vector ::
  "('f::{zero,linorder}) arithmetic \<Rightarrow> 'f index_state \<Rightarrow> string
     \<Rightarrow> py_error + ('f vector \<times> 'f index_state)" where
  "get_document_vector ar s doc_id =
     (case map_of (forward_index s) doc_id of
        None \<Rightarrow> Inr ([], s)
      | Some terms \<Rightarrow> document_vector_loop ar s doc_id (map fst terms) [])"

fun query_vector_loop ::
  "('f::{zero,linorder}) arithmetic \<Rightarrow> 'f index_state \<Rightarrow> (string \<times> nat) list \<Rightarrow> 'f vector
     \<Rightarrow> py_error + ('f vector \<times> 'f index_state)" where
  "query_vector_loop ar s [] vec = Inr (vec, s)"
| "query_vector_loop ar s ((word, count) # rest) vec =
     (case calculate_idf ar s word of
        Inl e \<Rightarrow> Inl e
      | Inr (idf, s') \<Rightarrow>
          query_vector_loop ar s' rest
            (AList.update word (float_mul ar (int_to_float ar count) idf) vec))"

definition get_query_vector ::
  "('f::{zero,linorder}) arithmetic \<Rightarrow> (string \<Rightarrow> string) \<Rightarrow> 'f index_state \<Rightarrow> string
     \<Rightarrow> py_error + ('f vector \<times> 'f index_state)" where
  "get_query_vector ar pp s query =
     (let processed_query = pp query in
      if processed_query = [] then Inr ([], s)
      else query_vector_loop ar s (Counter (py_split processed_query)) [])"

text \<open>
  The norm of a vector: the squares are summed in the order of the keys, and a square
  that is out of range raises. Every \<open>vec[word]\<close> reads a key of \<open>vec\<close>.
\<close>

fun sum_of_squares ::
  "'f arithmetic \<Rightarrow> 'f vector \<Rightarrow> string list \<Rightarrow> 'f \<Rightarrow> py_error + 'f" where
  "sum_of_squares ar vec [] acc = Inr acc"
| "sum_of_squares ar vec (word # rest) acc =
     (case float_square ar (item vec word) of
        Inl e \<Rightarrow> Inl e
      | Inr sq \<Rightarrow> sum_of_squares ar vec rest (float_add ar acc sq))"

definition l2_norm :: "('f::{zero,linorder}) arithmetic \<Rightarrow> 'f vector \<Rightarrow> py_error + 'f" where
  "l2_norm ar vec =
     (case sum_of_squares ar vec (map fst vec) 0 of
        Inl e \<Rightarrow> Inl e
      | Inr squares \<Rightarrow> py_sqrt ar squares)"

text \<open>
  \<open>common_words\<close> is a Python set. The products are summed in the order in which Python
  iterates it, which the arithmetic gives; both norms are computed before either is
  compared with 0.
\<close>

definition calculate_cosine_similarity ::
  "('f::{zero,linorder}) arithmetic \<Rightarrow> 'f vector \<Rightarrow> 'f vector \<Rightarrow> py_error + 'f" where
  "calculate_cosine_similarity ar vec1 vec2 =
     (let common_words = set (map fst vec1) \<inter> set (map fst vec2) in
      if common_words = {} then Inr 0
      else
        let dot_product =
              py_sum ar (map (\<lambda>word. float_mul ar (item vec1 word) (item vec2 word))
                           (iteration_order ar (map fst vec1) (map fst vec2)))
        in case l2_norm ar vec1 of
             Inl e \<Rightarrow> Inl e
           | Inr norm1 \<Rightarrow>
               (case l2_norm ar vec2 of
                  Inl e \<Rightarrow> Inl e
                | Inr norm2 \<Rightarrow>
                    if norm1 = 0 \<or> norm2 = 0 then Inr 0
                    else py_truediv ar dot_product (float_mul ar norm1 norm2)))"

fun search_loop ::
  "('f::{zero,linorder}) arithmetic \<Rightarrow> 'f index_state \<Rightarrow> 'f vector \<Rightarrow> string list
     \<Rightarrow> (string \<times> 'f) list \<Rightarrow> py_error + ((string \<times> 'f) list \<times> 'f index_state)" where
  "search_loop ar s query_vector [] similarities = Inr (similarities, s)"
| "search_loop ar s query_vector (doc_id # rest) similarities =
     (case get_document_vector ar s doc_id of
        Inl e \<Rightarrow> Inl e
      | Inr (doc_vector, s') \<Rightarrow>
          (case calculate_cosine_similarity ar query_vector doc_vector of
             Inl e \<Rightarrow> Inl e
           | Inr similarity \<Rightarrow>
               search_loop ar s' query_vector rest
                 (if similarity > 0 then similarities @ [(doc_id, similarity)]
                  else similarities)))"

definition search ::
  "('f::{zero,linorder}) arithmetic \<Rightarrow> (string \<Rightarrow> string) \<Rightarrow> 'f index_state \<Rightarrow> string \<Rightarrow> int
     \<Rightarrow> py_error + ((string \<times> 'f) list \<times> 'f index_state)" where
  "search ar pp s query top_k =
     (if query = [] \<or> total_documents s = 0 then Inr ([], s)
      else
        case get_query_vector ar pp s query of
          Inl e \<Rightarrow> Inl e
        | Inr (query_vector, s1) \<Rightarrow>
            if query_vector = [] then Inr ([], s1)
            else
              (case search_loop ar s1 query_vector (map fst (forward_index s1)) [] of
                 Inl e \<Rightarrow> Inl e
               | Inr (similarities, s2) \<Rightarrow>
                   Inr (slice_to top_k (sort_by_score similarities), s2)))"

definition get_document_keywords ::
  "('f::{zero,linorder}) arithmetic \<Rightarrow> 'f index_state \<Rightarrow> string \<Rightarrow> int
     \<Rightarrow> py_error + ((string \<times> 'f) list \<times> 'f index_state)" where
  "get_document_keywords ar s doc_id top_k =
     (if \<not> contains (forward_index s) doc_id then Inr ([], s)
      else
        case get_document_vector ar s doc_id of
          Inl e \<Rightarrow> Inl e
        | Inr (vec, s') \<Rightarrow> Inr (slice_to top_k (sort_by_score vec), s'))"

section \<open>Sequences of calls and the consistency of the two indexes\<close>

text \<open>
  \<open>entries d k\<close> is the inner dictionary stored under \<open>k\<close>, empty when there is none;
  \<open>keys d\<close> is the key set of a dictionary.
\<close>

definition entries :: "('k, ('j, 'v) dict) dict \<Rightarrow> 'k \<Rightarrow> ('j, 'v) dict" where
  "entries d k = (case map_of d k of None \<Rightarrow> [] | Some v \<Rightarrow> v)"

definition keys :: "('k, 'v) dict \<Rightarrow> 'k set" where
  "keys d = fst ` set d"

text \<open>
  The invariant of the index: keys are not repeated, no term has empty postings, and a
  document is in the postings of a term exactly when the term is in the forward entry of
  the document.
\<close>

definition consistent :: "'f index_state \<Rightarrow> bool" where
  "consistent s \<longleftrightarrow>
     distinct (map fst (inverted_index s)) \<and> distinct (map fst (forward_index s)) \<and>
     (\<forall>t. distinct (map fst (entries (inverted_index s) t))) \<and>
     (\<forall>d. distinct (map fst (entries (forward_index s) d))) \<and>
     (\<forall>t. t \<in> keys (inverted_index s) \<longrightarrow> entries (inverted_index s) t \<noteq> []) \<and>
     (\<forall>t d. d \<in> keys (entries (inverted_index s) t) \<longleftrightarrow> t \<in> keys (entries (forward_index s) d))"

text \<open>
  \<open>removing doc_id R\<close> is what holds inside the loop of \<open>remove_document\<close>, \<open>R\<close> being
  the words of the document that the loop has not visited yet.
\<close>

definition removing :: "string \<Rightarrow> string set \<Rightarrow> 'f index_state \<Rightarrow> bool" where
  "removing doc_id R s \<longleftrightarrow>
     distinct (map fst (inverted_index s)) \<and> distinct (map fst (forward_index s)) \<and>
     (\<forall>t. distinct (map fst (entries (inverted_index s) t))) \<and>
     (\<forall>d. distinct (map fst (entries (forward_index s) d))) \<and>
     (\<forall>t. t \<in> keys (inverted_index s) \<longrightarrow> entries (inverted_index s) t \<noteq> []) \<and>
     doc_id \<notin> keys (forward_index s) \<and>
     (\<forall>t d. d \<in> keys (entries (inverted_index s) t) \<longleftrightarrow>
        (if d = doc_id then t \<in> R else t \<in> keys (entries (forward_index s) d)))"

text \<open>
  The states of an index are those reached from the empty index by calls of
  \<open>add_document\<close>, \<open>remove_document\<close> and \<open>calculate_idf\<close>. Every other method changes
  the state only through its calls of \<open>calculate_idf\<close>.
\<close>

datatype index_call = Add string string | Remove string | Idf string

fun apply_call ::
  "('f::{zero,linorder}) arithmetic \<Rightarrow> (string \<Rightarrow> string) \<Rightarrow> index_call
     \<Rightarrow> 'f index_state \<Rightarrow> 'f index_state" where
  "apply_call ar pp (Add doc_id content) s = add_document pp s doc_id content"
| "apply_call ar pp (Remove doc_id) s = remove_document s doc_id"
| "apply_call ar pp (Idf word) s =
     (case calculate_idf ar s word of Inl e \<Rightarrow> s | Inr (v, s') \<Rightarrow> s')"

definition run ::
  "('f::{zero,linorder}) arithmetic \<Rightarrow> (string \<Rightarrow> string) \<Rightarrow> index_call list \<Rightarrow> 'f index_state" where
  "run ar pp calls = fold (apply_call ar pp) calls empty_index"

section \<open>The orchestrator (core/search\_engine.py, utils/document\_manager.py)\<close>

text \<open>
  A stored document. \<open>DocumentManager\<close> keeps the documents in a dictionary and writes it
  to a file after every change; the write catches its own exceptions, so the model is the
  dictionary alone.
\<close>

record document =
  document_id :: string
  title :: string
  content :: string
  file_path :: "string option"
  metadata :: "(string, string) dict"
  created_at :: string
  processed_content :: string

definition get_document :: "(string, document) dict \<Rightarrow> string \<Rightarrow> document option" where
  "get_document docs doc_id = map_of docs doc_id"

definition delete_document ::
  "(string, document) dict \<Rightarrow> string \<Rightarrow> bool \<times> (string, document) dict" where
  "delete_document docs doc_id =
     (if contains docs doc_id then (True, AList.delete doc_id docs) else (False, docs))"

text \<open>
  A search result. Its snippet is computed from the document and the keywords when the
  result is built, and nothing reads it afterwards; it is left out.
\<close>

record 'f search_result =
  result_document :: document
  score :: 'f
  matched_keywords :: "string list"

record 'f search_engine =
  documents :: "(string, document) dict"
  index :: "'f index_state"

definition engine_remove_document ::
  "'f search_engine \<Rightarrow> string \<Rightarrow> bool \<times> 'f search_engine" where
  "engine_remove_document e doc_id =
     (let (success, docs) = delete_document (documents e) doc_id;
          e1 = e\<lparr>documents := docs\<rparr>
      in if success then (success, e1\<lparr>index := remove_document (index e1) doc_id\<rparr>)
         else (success, e1))"

definition find_matched_keywords :: "string \<Rightarrow> string list \<Rightarrow> string list" where
  "find_matched_keywords doc_content query_keywords =
     (let doc_words = set (py_split doc_content)
      in filter (\<lambda>keyword. keyword \<in> doc_words) query_keywords)"

text \<open>The loop of \<open>SearchEngine.search\<close> over the hits of the index.\<close>

fun collect_results ::
  "(string, document) dict \<Rightarrow> string list \<Rightarrow> int \<Rightarrow> 'f::linorder \<Rightarrow> (string \<times> 'f) list
     \<Rightarrow> 'f search_result list \<Rightarrow> 'f search_result list" where
  "collect_results docs query_keywords top_k min_score [] results = results"
| "collect_results docs query_keywords top_k min_score ((doc_id, sc) # rest) results =
     (if sc < min_score then collect_results docs query_keywords top_k min_score rest results
      else
        case get_document docs doc_id of
          None \<Rightarrow> collect_results docs query_keywords top_k min_score rest results
        | Some doc \<Rightarrow>
            let matched = find_matched_keywords (processed_content doc) query_keywords;
                results' = results @ [\<lparr>result_document = doc, score = sc,
                                       matched_keywords = matched\<rparr>]
            in if int (length results') \<ge> top_k then results'
               else collect_results docs query_keywords top_k min_score rest results')"

definition engine_search ::
  "('f::{zero,linorder}) arithmetic \<Rightarrow> (string \<Rightarrow> string) \<Rightarrow> 'f search_engine \<Rightarrow> string \<Rightarrow> int
     \<Rightarrow> 'f \<Rightarrow> py_error + ('f search_result list \<times> 'f search_engine)" where
  "engine_search ar pp e query top_k min_score =
     (if strip query = [] then Inr ([], e)
      else
        case search ar pp (index e) query (top_k * 2) of
          Inl err \<Rightarrow> Inl err
        | Inr (search_results, idx) \<Rightarrow>
            let processed_query = pp query;
                query_keywords = (if processed_query \<noteq> [] then py_split processed_query else [])
            in Inr (collect_results (documents e) query_keywords top_k min_score
                      search_results [],
                    e\<lparr>index := idx\<rparr>))"

section \<open>Postings that are written already\<close>

text \<open>
  \<open>posted doc_id (word, count)\<close>: both indexes hold \<open>count\<close> for the word in the document,
  so that writing the posting again changes nothing.
\<close>

definition posted :: "string \<Rightarrow> string \<times> nat \<Rightarrow> 'f index_state \<Rightarrow> bool" where
  "posted doc_id wc s \<longleftrightarrow>
     contains (inverted_index s) (fst wc) \<and>
     map_of (entries (inverted_index s) (fst wc)) doc_id = Some (snd wc) \<and>
     contains (forward_index s) doc_id \<and>
     map_of (entries (forward_index s) doc_id) (fst wc) = Some (snd wc)"

section \<open>The values computed from the index alone\<close>

text \<open>
  The inverse document frequency computed from the index with no cache, as the
  specification words it: 0 for a term that the inverted index does not have, otherwise
  the logarithm of \<open>total_documents\<close> over the size of the postings.
\<close>

definition inverse_document_frequency ::
  "('f::{zero,linorder}) arithmetic \<Rightarrow> 'f index_state \<Rightarrow> string \<Rightarrow> py_error + 'f" where
  "inverse_document_frequency ar s word =
     (case map_of (inverted_index s) word of
        None \<Rightarrow> Inr 0
      | Some postings \<Rightarrow>
          if length postings = 0 then Inr 0
          else
            (case py_int_truediv ar (total_documents s) (length postings) of
               Inl e \<Rightarrow> Inl e
             | Inr ratio \<Rightarrow> py_log ar ratio))"

text \<open>
  \<open>valid\<close>: the index is consistent, \<open>total_documents\<close> is the size of the forward index,
  and every cached value is the one computed from the index. \<open>refreshed s s'\<close>: \<open>s'\<close> is
  \<open>s\<close> with another valid cache. \<open>computes s result value\<close>: a call made in a state
  refreshed from \<open>s\<close> raises what the computation from the index raises, or returns its
  value together with a state refreshed from \<open>s\<close>.
\<close>

definition cache_ok :: "('f::{zero,linorder}) arithmetic \<Rightarrow> 'f index_state \<Rightarrow> bool" where
  "cache_ok ar s \<longleftrightarrow>
     (\<forall>word v. map_of (idf_cache s) word = Some v
        \<longrightarrow> inverse_document_frequency ar s word = Inr v)"

definition valid :: "('f::{zero,linorder}) arithmetic \<Rightarrow> 'f index_state \<Rightarrow> bool" where
  "valid ar s \<longleftrightarrow>
     consistent s \<and> total_documents s = length (forward_index s) \<and> cache_ok ar s"

definition refreshed ::
  "('f::{zero,linorder}) arithmetic \<Rightarrow> 'f index_state \<Rightarrow> 'f index_state \<Rightarrow> bool" where
  "refreshed ar s s' \<longleftrightarrow> valid ar s' \<and> s' = s\<lparr>idf_cache := idf_cache s'\<rparr>"

definition computes ::
  "('f::{zero,linorder}) arithmetic \<Rightarrow> 'f index_state \<Rightarrow> py_error + ('a \<times> 'f index_state)
     \<Rightarrow> py_error + 'a \<Rightarrow> bool" where
  "computes ar s result value \<longleftrightarrow>
     (case value of
        Inl e \<Rightarrow> result = Inl e
      | Inr v \<Rightarrow> (\<exists>s'. result = Inr (v, s') \<and> refreshed ar s s'))"

text \<open>
  The weight of a term in a document, the two vectors and the similarity of a document to
  a query, computed from the index with no cache, in the order in which the program
  computes them.
\<close>

definition tf_idf ::
  "('f::{zero,linorder}) arithmetic \<Rightarrow> 'f index_state \<Rightarrow> string \<Rightarrow> string \<Rightarrow> py_error + 'f" where
  "tf_idf ar s word doc_id =
     (case calculate_tf ar s word doc_id of
        Inl e \<Rightarrow> Inl e
      | Inr tf \<Rightarrow>
          (case inverse_document_frequency ar s word of
             Inl e \<Rightarrow> Inl e
           | Inr idf \<Rightarrow> Inr (float_mul ar tf idf)))"

fun document_weights ::
  "('f::{zero,linorder}) arithmetic \<Rightarrow> 'f index_state \<Rightarrow> string \<Rightarrow> string list \<Rightarrow> 'f vector
     \<Rightarrow> py_error + 'f vector" where
  "document_weights ar s doc_id [] vec = Inr vec"
| "document_weights ar s doc_id (word # rest) vec =
     (case tf_idf ar s word doc_id of
        Inl e \<Rightarrow> Inl e
      | Inr weight \<Rightarrow> document_weights ar s doc_id rest (AList.update word weight vec))"

definition document_vector ::
  "('f::{zero,linorder}) arithmetic \<Rightarrow> 'f index_state \<Rightarrow> string \<Rightarrow> py_error + 'f vector" where
  "document_vector ar s doc_id =
     document_weights ar s doc_id (map fst (entries (forward_index s) doc_id)) []"

fun query_weights ::
  "('f::{zero,linorder}) arithmetic \<Rightarrow> 'f index_state \<Rightarrow> (string \<times> nat) list \<Rightarrow> 'f vector
     \<Rightarrow> py_error + 'f vector" where
  "query_weights ar s [] vec = Inr vec"
| "query_weights ar s ((word, count) # rest) vec =
     (case inverse_document_frequency ar s word of
        Inl e \<Rightarrow> Inl e
      | Inr idf \<Rightarrow>
          query_weights ar s rest
            (AList.update word (float_mul ar (int_to_float ar count) idf) vec))"

definition query_vector ::
  "('f::{zero,linorder}) arithmetic \<Rightarrow> (string \<Rightarrow> string) \<Rightarrow> 'f index_state \<Rightarrow> string
     \<Rightarrow> py_error + 'f vector" where
  "query_vector ar pp s query = query_weights ar s (Counter (py_split (pp query))) []"

definition similarity ::
  "('f::{zero,linorder}) arithmetic \<Rightarrow> (string \<Rightarrow> string) \<Rightarrow> 'f index_state \<Rightarrow> string \<Rightarrow> string
     \<Rightarrow> py_error + 'f" where
  "similarity ar pp s query doc_id =
     (case query_vector ar pp s query of
        Inl e \<Rightarrow> Inl e
      | Inr qv \<Rightarrow>
          (case document_vector ar s doc_id of
             Inl e \<Rightarrow> Inl e
           | Inr dv \<Rightarrow> calculate_cosine_similarity ar qv dv))"

text \<open>
  The ranking: the indexed documents whose similarity to the query is greater than 0,
  each with its similarity, in the order of the forward index.
\<close>

definition positive_hit ::
  "('f::{zero,linorder}) arithmetic \<Rightarrow> (string \<Rightarrow> string) \<Rightarrow> 'f index_state \<Rightarrow> string \<Rightarrow> string
     \<Rightarrow> (string \<times> 'f) option" where
  "positive_hit ar pp s query doc_id =
     (case similarity ar pp s query doc_id of
        Inl e \<Rightarrow> None
      | Inr x \<Rightarrow> if x > 0 then Some (doc_id, x) else None)"

definition ranking ::
  "('f::{zero,linorder}) arithmetic \<Rightarrow> (string \<Rightarrow> string) \<Rightarrow> 'f index_state \<Rightarrow> string
     \<Rightarrow> (string \<times> 'f) list" where
  "ranking ar pp s query =
     List.map_filter (positive_hit ar pp s query) (map fst (forward_index s))"

text \<open>
  Modelled from the spec: \<open>preprocess_text\<close> (core/text\_processor.py) is missing from
  the sources. The specification asks of it that empty or blank input gives the empty
  text.
\<close>

definition normaliser :: "(string \<Rightarrow> string) \<Rightarrow> bool" where
  "normaliser pp \<longleftrightarrow> (\<forall>text. strip text = [] \<longrightarrow> pp text = [])"

text \<open>A normaliser for examples: blank text becomes empty, other text is kept.\<close>

definition keep_text :: "string \<Rightarrow> string" where
  "keep_text text = (if py_split text = [] then [] else text)"

text \<open>
  Another one: blank text becomes empty, and in other text every exclamation mark becomes
  a space, so that the text \<open>!\<close> becomes a text that is not empty and has no word.
\<close>

definition marks_to_spaces :: "string \<Rightarrow> string" where
  "marks_to_spaces text =
     (if strip text = [] then []
      else map (\<lambda>c. if c = CHR ''!'' then CHR '' '' else c) text)"

section \<open>What the orchestrator keeps of the hits\<close>

text \<open>
  The hits that pass the filter of the orchestrator, as search results: a hit below
  \<open>min_score\<close> is dropped, a hit whose document is not in the store is skipped.
\<close>

definition resolve_hit ::
  "(string, document) dict \<Rightarrow> string list \<Rightarrow> 'f::linorder \<Rightarrow> string \<times> 'f
     \<Rightarrow> 'f search_result option" where
  "resolve_hit docs query_keywords min_score hit =
     (if snd hit < min_score then None
      else map_option
             (\<lambda>doc. \<lparr>result_document = doc, score = snd hit,
                     matched_keywords = find_matched_keywords (processed_content doc) query_keywords\<rparr>)
             (map_of docs (fst hit)))"

definition resolve_hits ::
  "(string, document) dict \<Rightarrow> string list \<Rightarrow> 'f::linorder \<Rightarrow> (string \<times> 'f) list
     \<Rightarrow> 'f search_result list" where
  "resolve_hits docs query_keywords min_score hits =
     List.map_filter (resolve_hit docs query_keywords min_score) hits"

section \<open>Dictionaries\<close>

lemma contains_keys: "contains d k \<longleftrightarrow> k \<in> keys d"
  by (simp add: contains_def keys_def map_of_eq_None_iff)

lemma keys_update: "keys (AList.update k v d) = insert k (keys d)"
  by (simp add: keys_def dom_update)

lemma keys_delete: "keys (AList.delete k d) = keys d - {k}"
  by (auto simp: keys_def AList.delete_eq)

lemma keys_Nil [simp]: "keys [] = {}"
  by (simp add: keys_def)

lemma keys_empty_iff: "keys d = {} \<longleftrightarrow> d = []"
  by (simp add: keys_def)

lemma entries_update: "entries (AList.update k v d) k' = (if k' = k then v else entries d k')"
  by (simp add: entries_def update_conv')

lemma entries_delete: "entries (AList.delete k d) k' = (if k' = k then [] else entries d k')"
  by (simp add: entries_def delete_conv')

lemma entries_notin: "k \<notin> keys d \<Longrightarrow> entries d k = []"
  by (simp add: entries_def keys_def map_of_eq_None_iff[THEN iffD2])

lemma update_fresh: "k \<notin> keys d \<Longrightarrow> AList.update k v d = d @ [(k, v)]"
  by (induction d) (auto simp: keys_def)

lemma update_appended: "k \<notin> keys d \<Longrightarrow> AList.update k v (d @ [(k, x)]) = d @ [(k, v)]"
  by (induction d) (auto simp: keys_def)

lemma fst_defaultdict_get: "fst (defaultdict_get d k) = entries d k"
  by (simp add: defaultdict_get_def entries_def split: option.splits)

lemma update_defaultdict_get:
  "AList.update k v (snd (defaultdict_get d k)) = AList.update k v d"
proof (cases "map_of d k")
  case None
  then have "k \<notin> keys d" by (simp add: keys_def map_of_eq_None_iff)
  then show ?thesis using None
    by (simp add: defaultdict_get_def update_fresh update_appended)
next
  case (Some v)
  then show ?thesis by (simp add: defaultdict_get_def)
qed

section \<open>Consistency of the forward and the inverted index\<close>

lemma add_posting_eq:
  "add_posting doc_id wc s =
     s\<lparr>inverted_index := AList.update (fst wc)
          (AList.update doc_id (snd wc) (entries (inverted_index s) (fst wc))) (inverted_index s),
       forward_index := AList.update doc_id
          (AList.update (fst wc) (snd wc) (entries (forward_index s) doc_id)) (forward_index s)\<rparr>"
  by (simp add: add_posting_def Let_def case_prod_unfold fst_defaultdict_get update_defaultdict_get)

lemma consistent_add_posting:
  assumes "consistent s"
  shows "consistent (add_posting doc_id wc s)"
  using assms unfolding consistent_def add_posting_eq
  by (auto simp: distinct_update entries_update keys_update)

lemma consistent_fold_add_posting:
  "consistent s \<Longrightarrow> consistent (fold (add_posting doc_id) wcs s)"
  by (induction wcs arbitrary: s) (simp_all add: consistent_add_posting)

lemma consistent_cache [simp]: "consistent (s\<lparr>idf_cache := c\<rparr>) = consistent s"
  and consistent_total [simp]: "consistent (s\<lparr>total_documents := n\<rparr>) = consistent s"
  and consistent_lengths [simp]: "consistent (s\<lparr>document_lengths := l\<rparr>) = consistent s"
  and consistent_weights [simp]: "consistent (s\<lparr>tf_idf_weights := w\<rparr>) = consistent s"
  by (simp_all add: consistent_def)

lemma consistent_add_document:
  "consistent s \<Longrightarrow> consistent (add_document pp s doc_id text)"
  by (simp add: add_document_def Let_def consistent_fold_add_posting)

lemma set_map_fst_keys [simp]: "set (map fst d) = keys d"
  by (simp add: keys_def)

lemma entries_nonempty_key: "entries d k \<noteq> [] \<Longrightarrow> k \<in> keys d"
  using entries_notin by metis

lemma remove_posting_eq:
  assumes "word \<in> keys (inverted_index s)"
  shows "remove_posting doc_id word s =
     s\<lparr>inverted_index :=
         (if doc_id \<in> keys (entries (inverted_index s) word)
          then (if AList.delete doc_id (entries (inverted_index s) word) = []
                then AList.delete word (inverted_index s)
                else AList.update word (AList.delete doc_id (entries (inverted_index s) word))
                       (inverted_index s))
          else inverted_index s)\<rparr>"
proof -
  from assms obtain ps where ps: "map_of (inverted_index s) word = Some ps"
    by (auto simp: keys_def dest!: weak_map_of_SomeI) 
  then have "defaultdict_get (inverted_index s) word = (ps, inverted_index s)"
    and "entries (inverted_index s) word = ps"
    by (simp_all add: defaultdict_get_def entries_def)
  then show ?thesis
    by (simp add: remove_posting_def contains_keys Let_def delete_update_same)
qed

lemma removing_step:
  assumes "removing doc_id R s" and "word \<in> R"
  shows "removing doc_id (R - {word}) (remove_posting doc_id word s)"
proof -
  let ?inv = "inverted_index s"
  let ?ps = "AList.delete doc_id (entries ?inv word)"
  let ?inv' = "if ?ps = [] then AList.delete word ?inv else AList.update word ?ps ?inv"
  from assms have d_in: "doc_id \<in> keys (entries ?inv word)"
    by (simp add: removing_def)
  then have "entries ?inv word \<noteq> []"
    by (auto simp: keys_def)
  then have w_in: "word \<in> keys ?inv"
    by (rule entries_nonempty_key)
  have eq: "remove_posting doc_id word s = s\<lparr>inverted_index := ?inv'\<rparr>"
    using d_in by (simp add: remove_posting_eq[OF w_in])
  have ent: "entries ?inv' t = (if t = word then ?ps else entries ?inv t)" for t
    by (simp add: entries_update entries_delete)
  have dist: "distinct (map fst ?inv)" "\<And>t. distinct (map fst (entries ?inv t))"
    and nonempty: "\<And>t. t \<in> keys ?inv \<Longrightarrow> entries ?inv t \<noteq> []"
    and agree: "\<And>t d. d \<in> keys (entries ?inv t) \<longleftrightarrow>
        (if d = doc_id then t \<in> R else t \<in> keys (entries (forward_index s) d))"
    using assms(1) by (simp_all add: removing_def)
  have 1: "distinct (map fst ?inv')"
    using dist(1) by (simp add: distinct_update distinct_delete)
  have 2: "distinct (map fst (entries ?inv' t))" for t
    unfolding ent using dist(2) by (simp add: distinct_delete)
  have 3: "entries ?inv' t \<noteq> []" if "t \<in> keys ?inv'" for t
    using that nonempty[of t] unfolding ent
    by (auto simp: keys_update keys_delete split: if_splits)
  have 4: "d \<in> keys (entries ?inv' t) \<longleftrightarrow>
        (if d = doc_id then t \<in> R - {word} else t \<in> keys (entries (forward_index s) d))" for t d
    unfolding ent using agree[of d t] by (auto simp: keys_delete)
  show ?thesis
    unfolding eq removing_def using assms(1) 1 2 3 4
    by (simp add: removing_def)
qed

lemma removing_fold:
  "removing doc_id (set ws) s \<Longrightarrow> distinct ws \<Longrightarrow>
   removing doc_id {} (fold (remove_posting doc_id) ws s)"
proof (induction ws arbitrary: s)
  case Nil
  then show ?case by simp
next
  case (Cons w ws)
  from Cons.prems have "removing doc_id (set (w # ws) - {w}) (remove_posting doc_id w s)"
    by (intro removing_step) simp_all
  moreover from Cons.prems have "set (w # ws) - {w} = set ws" by auto
  ultimately show ?case using Cons by simp
qed

lemma removing_start:
  assumes "consistent s" and "map_of (forward_index s) doc_id = Some terms"
  shows "removing doc_id (keys terms)
           (s\<lparr>forward_index := AList.delete doc_id (forward_index s)\<rparr>)"
proof -
  from assms(2) have "entries (forward_index s) doc_id = terms"
    by (simp add: entries_def)
  then show ?thesis
    using assms(1) unfolding consistent_def removing_def
    by (auto simp: distinct_delete entries_delete keys_delete)
qed

lemma removing_done: "removing doc_id {} s \<Longrightarrow> consistent s"
  unfolding removing_def consistent_def
  by (auto simp: entries_notin)

lemma consistent_remove_document:
  assumes "consistent s"
  shows "consistent (remove_document s doc_id)"
proof (cases "map_of (forward_index s) doc_id")
  case None
  then show ?thesis using assms by (simp add: remove_document_def)
next
  case (Some terms)
  have "distinct (map fst terms)"
    using assms Some unfolding consistent_def entries_def
    by (metis option.simps(5))
  moreover have "removing doc_id (set (map fst terms))
           (s\<lparr>forward_index := AList.delete doc_id (forward_index s)\<rparr>)"
    using removing_start[OF assms Some] by (simp add: keys_def)
  ultimately have "consistent (fold (remove_posting doc_id) (map fst terms)
           (s\<lparr>forward_index := AList.delete doc_id (forward_index s)\<rparr>))"
    using removing_done[OF removing_fold] by blast
  then show ?thesis using Some
    by (simp add: remove_document_def Let_def)
qed

lemma calculate_idf_state:
  "calculate_idf ar s word = Inr (v, s') \<Longrightarrow> s' = s\<lparr>idf_cache := idf_cache s'\<rparr>"
  by (auto simp: calculate_idf_def Let_def split: option.splits if_splits sum.splits)

lemma consistent_apply_call:
  assumes "consistent s"
  shows "consistent (apply_call ar pp c s)"
proof (cases c)
  case (Idf w)
  show ?thesis
  proof (cases "calculate_idf ar s w")
    case (Inl e)
    then show ?thesis using Idf assms by simp
  next
    case (Inr r)
    obtain v s' where r: "r = (v, s')" by (cases r)
    from calculate_idf_state[of ar s w v s'] Inr r
    have "consistent s' = consistent (s\<lparr>idf_cache := idf_cache s'\<rparr>)" by simp
    then show ?thesis using Idf Inr r assms by simp
  qed
qed (simp_all add: assms consistent_add_document consistent_remove_document)

lemma consistent_empty: "consistent empty_index"
  by (simp add: consistent_def empty_index_def entries_def)

lemma consistent_fold_calls: "consistent s \<Longrightarrow> consistent (fold (apply_call ar pp) calls s)"
  by (induction calls arbitrary: s) (simp_all add: consistent_apply_call)

lemma consistent_run: "consistent (run ar pp calls)"
  by (simp add: run_def consistent_fold_calls consistent_empty)

lemma entries_member:
  "distinct (map fst d) \<Longrightarrow> (k, v) \<in> set d \<Longrightarrow> entries d k = v"
  by (simp add: entries_def)

lemma member_entries:
  "k \<in> keys d \<Longrightarrow> (k, entries d k) \<in> set d"
  by (auto simp: keys_def entries_def map_of_eq_None_iff split: option.splits dest: map_of_SomeD)

text \<open>
  Claim C1. After any sequence of calls starting from the empty index, every term of
  \<open>inverted_index\<close> has non-empty postings, and the keys of the forward entry of every
  indexed document are exactly the terms whose postings hold the document.
\<close>

theorem index_consistency:
  "(\<forall>(word, postings) \<in> set (inverted_index (run ar pp calls)). postings \<noteq> []) \<and>
   (\<forall>(doc_id, terms) \<in> set (forward_index (run ar pp calls)).
      keys terms = {word. \<exists>postings. (word, postings) \<in> set (inverted_index (run ar pp calls))
                                   \<and> doc_id \<in> keys postings})"
proof -
  let ?s = "run ar pp calls"
  have c: "consistent ?s" by (rule consistent_run)
  then have di: "distinct (map fst (inverted_index ?s))" and df: "distinct (map fst (forward_index ?s))"
    and ne: "\<And>t. t \<in> keys (inverted_index ?s) \<Longrightarrow> entries (inverted_index ?s) t \<noteq> []"
    and ag: "\<And>t d. d \<in> keys (entries (inverted_index ?s) t) \<longleftrightarrow> t \<in> keys (entries (forward_index ?s) d)"
    by (simp_all add: consistent_def)
  have "postings \<noteq> []" if "(word, postings) \<in> set (inverted_index ?s)" for word postings
    using that ne[of word] entries_member[OF di that] by (force simp: keys_def)
  moreover have "keys terms = {word. \<exists>postings. (word, postings) \<in> set (inverted_index ?s)
                                   \<and> doc_id \<in> keys postings}"
    if "(doc_id, terms) \<in> set (forward_index ?s)" for doc_id terms
  proof -
    have t: "entries (forward_index ?s) doc_id = terms"
      using entries_member[OF df that] .
    show ?thesis
    proof (intro set_eqI iffI)
      fix w assume "w \<in> keys terms"
      then have d: "doc_id \<in> keys (entries (inverted_index ?s) w)"
        using ag[of doc_id w] t by simp
      then have "entries (inverted_index ?s) w \<noteq> []" by (auto simp: keys_def)
      then have "w \<in> keys (inverted_index ?s)" by (rule entries_nonempty_key)
      then have "(w, entries (inverted_index ?s) w) \<in> set (inverted_index ?s)"
        by (rule member_entries)
      with d show "w \<in> {word. \<exists>postings. (word, postings) \<in> set (inverted_index ?s)
                                   \<and> doc_id \<in> keys postings}" by blast
    next
      fix w assume "w \<in> {word. \<exists>postings. (word, postings) \<in> set (inverted_index ?s)
                                   \<and> doc_id \<in> keys postings}"
      then obtain ps where ps: "(w, ps) \<in> set (inverted_index ?s)" "doc_id \<in> keys ps" by blast
      then have "entries (inverted_index ?s) w = ps" using entries_member[OF di] by simp
      with ps(2) show "w \<in> keys terms" using ag[of doc_id w] t by simp
    qed
  qed
  ultimately show ?thesis by blast
qed

text \<open>The scenario of the specification: two documents added, the first removed.\<close>

lemma run_example:
  "run real_arithmetic keep_text [Add ''d1'' ''cat dog cat'', Add ''d2'' ''dog bird'', Remove ''d1''] =
    \<lparr>inverted_index = [(''dog'', [(''d2'', 1)]), (''bird'', [(''d2'', 1)])],
     forward_index = [(''d2'', [(''dog'', 1), (''bird'', 1)])],
     total_documents = 1, document_lengths = [(''d2'', 2)], tf_idf_weights = [], idf_cache = []\<rparr>"
proof -
  have "remove_document (add_document keep_text (add_document keep_text (empty_index :: real index_state)
          ''d1'' ''cat dog cat'') ''d2'' ''dog bird'') ''d1'' =
    \<lparr>inverted_index = [(''dog'', [(''d2'', 1)]), (''bird'', [(''d2'', 1)])],
     forward_index = [(''d2'', [(''dog'', 1), (''bird'', 1)])],
     total_documents = 1, document_lengths = [(''d2'', 2)], tf_idf_weights = [], idf_cache = []\<rparr>"
    by code_simp
  then show ?thesis by (simp add: run_def)
qed

theorem index_consistency_witness:
  "(''dog'', [(''d2'', 1)]) \<in> set (inverted_index (run real_arithmetic keep_text [Add ''d1'' ''cat dog cat'', Add ''d2'' ''dog bird'', Remove ''d1'']))
   \<and> [(''d2'', 1::nat)] \<noteq> []
   \<and> (''d2'', [(''dog'', 1), (''bird'', 1)]) \<in> set (forward_index (run real_arithmetic keep_text [Add ''d1'' ''cat dog cat'', Add ''d2'' ''dog bird'', Remove ''d1'']))
   \<and> keys [(''dog'', 1::nat), (''bird'', 1)] = {word. \<exists>postings. (word, postings) \<in> set (inverted_index (run real_arithmetic keep_text [Add ''d1'' ''cat dog cat'', Add ''d2'' ''dog bird'', Remove ''d1''])) \<and> ''d2'' \<in> keys postings}"
  using index_consistency[of real_arithmetic keep_text "[Add ''d1'' ''cat dog cat'', Add ''d2'' ''dog bird'', Remove ''d1'']"]
  unfolding run_example by simp

section \<open>Reads of a document that is not indexed, removal through the orchestrator\<close>

text \<open>
  Claim C10. For a document that is not in the forward index, \<open>get_document_vector\<close>
  returns the empty vector and \<open>get_document_keywords\<close> the empty list, and both leave
  the state as it was.
\<close>

theorem absent_document_reads:
  assumes "\<not> contains (forward_index s) doc_id"
  shows "get_document_vector ar s doc_id = Inr ([], s) \<and>
         get_document_keywords ar s doc_id top_k = Inr ([], s)"
  using assms by (simp add: get_document_vector_def get_document_keywords_def contains_def)

theorem absent_document_reads_witness:
  "\<not> contains (forward_index (run real_arithmetic keep_text [Add ''d1'' ''cat dog cat''])) ''d2'' \<and>
   get_document_vector real_arithmetic (run real_arithmetic keep_text [Add ''d1'' ''cat dog cat'']) ''d2''
     = Inr ([], run real_arithmetic keep_text [Add ''d1'' ''cat dog cat'']) \<and>
   get_document_keywords real_arithmetic (run real_arithmetic keep_text [Add ''d1'' ''cat dog cat'']) ''d2'' 10
     = Inr ([], run real_arithmetic keep_text [Add ''d1'' ''cat dog cat''])"
proof -
  have "forward_index (add_document keep_text (empty_index :: real index_state) ''d1'' ''cat dog cat'')
          = [(''d1'', [(''cat'', 2), (''dog'', 1)])]"
    by code_simp
  then have "\<not> contains (forward_index (run real_arithmetic keep_text [Add ''d1'' ''cat dog cat''])) ''d2''"
    by (simp add: run_def contains_def)
  then show ?thesis
    using absent_document_reads[of "run real_arithmetic keep_text [Add ''d1'' ''cat dog cat'']" "''d2''" real_arithmetic 10]
    by simp
qed

text \<open>
  Claim C8. \<open>remove_document\<close> of the orchestrator deletes from the store first and
  returns whether that succeeded; the index is changed only on success, by its own
  \<open>remove_document\<close>, and is left as it was when the document is not in the store.
\<close>

theorem engine_remove_document_lockstep:
  "fst (engine_remove_document e doc_id) = fst (delete_document (documents e) doc_id) \<and>
   documents (snd (engine_remove_document e doc_id)) = snd (delete_document (documents e) doc_id) \<and>
   index (snd (engine_remove_document e doc_id)) =
     (if fst (delete_document (documents e) doc_id) then remove_document (index e) doc_id
      else index e) \<and>
   (\<not> contains (documents e) doc_id \<longrightarrow>
      engine_remove_document e doc_id = (False, e))"
  by (simp add: engine_remove_document_def delete_document_def)

theorem engine_remove_document_lockstep_witness:
  "\<not> contains (documents \<lparr>documents = [], index = run real_arithmetic keep_text [Add ''d1'' ''cat dog cat'']\<rparr>) ''d1'' \<and>
   engine_remove_document \<lparr>documents = [], index = run real_arithmetic keep_text [Add ''d1'' ''cat dog cat'']\<rparr> ''d1''
     = (False, \<lparr>documents = [], index = run real_arithmetic keep_text [Add ''d1'' ''cat dog cat'']\<rparr>) \<and>
   engine_remove_document
     \<lparr>documents = [(''d1'', \<lparr>document_id = ''d1'', title = ''Cats'', content = ''cat dog cat'',
       file_path = None, metadata = [], created_at = ''2024'',
       processed_content = ''cat dog cat''\<rparr>)], index = run real_arithmetic keep_text [Add ''d1'' ''cat dog cat'']\<rparr> ''d1''
     = (True, \<lparr>documents = [],
               index = remove_document (run real_arithmetic keep_text [Add ''d1'' ''cat dog cat'']) ''d1''\<rparr>)"
proof -
  let ?idx = "run real_arithmetic keep_text [Add ''d1'' ''cat dog cat'']"
  have 1: "engine_remove_document \<lparr>documents = [], index = ?idx\<rparr> ''d1''
      = (False, \<lparr>documents = [], index = ?idx\<rparr>)"
    using engine_remove_document_lockstep[of "\<lparr>documents = [], index = ?idx\<rparr>" "''d1''"]
    by (simp add: contains_def)
  have 2: "engine_remove_document \<lparr>documents = [(''d1'', \<lparr>document_id = ''d1'', title = ''Cats'', content = ''cat dog cat'',
       file_path = None, metadata = [], created_at = ''2024'',
       processed_content = ''cat dog cat''\<rparr>)], index = ?idx\<rparr> ''d1''
      = (True, \<lparr>documents = [], index = remove_document ?idx ''d1''\<rparr>)"
    using engine_remove_document_lockstep[of "\<lparr>documents = [(''d1'', \<lparr>document_id = ''d1'', title = ''Cats'', content = ''cat dog cat'',
       file_path = None, metadata = [], created_at = ''2024'',
       processed_content = ''cat dog cat''\<rparr>)], index = ?idx\<rparr>" "''d1''"]
    by (simp add: delete_document_def contains_def prod_eq_iff)
  show ?thesis using 1 2 by (simp add: contains_def)
qed

section \<open>Cosine similarity\<close>

text \<open>
  What holds of \<open>calculate_cosine_similarity\<close> whatever the arithmetic: it returns 0 when
  the vectors share no term; when they share one, it raises what a norm raises, it
  returns 0 when both norms are computed and one of them is 0, and otherwise it divides
  by the product of the norms, neither of which is 0. With the arguments exchanged it
  returns the same, provided that both norms are computed, that the product of two
  floats does not depend on their order, and that the shared terms are gone through in
  the same order; the sum of the products depends on that order when sums are rounded.
\<close>

lemma cosine_no_shared_term:
  "keys vec1 \<inter> keys vec2 = {} \<Longrightarrow> calculate_cosine_similarity ar vec1 vec2 = Inr 0"
  by (simp add: calculate_cosine_similarity_def keys_def)

lemma cosine_empty_query [simp]: "calculate_cosine_similarity ar [] vec = Inr 0"
  by (simp add: calculate_cosine_similarity_def)

lemma cosine_zero_norm:
  "l2_norm ar vec1 = Inr norm1 \<Longrightarrow> l2_norm ar vec2 = Inr norm2 \<Longrightarrow> norm1 = 0 \<or> norm2 = 0 \<Longrightarrow>
   calculate_cosine_similarity ar vec1 vec2 = Inr 0"
  by (auto simp: calculate_cosine_similarity_def Let_def)

lemma cosine_division:
  "keys vec1 \<inter> keys vec2 \<noteq> {} \<Longrightarrow> l2_norm ar vec1 = Inr norm1 \<Longrightarrow> l2_norm ar vec2 = Inr norm2 \<Longrightarrow>
   norm1 \<noteq> 0 \<Longrightarrow> norm2 \<noteq> 0 \<Longrightarrow>
   calculate_cosine_similarity ar vec1 vec2 =
     py_truediv ar
       (py_sum ar (map (\<lambda>word. float_mul ar (item vec1 word) (item vec2 word))
                     (iteration_order ar (map fst vec1) (map fst vec2))))
       (float_mul ar norm1 norm2)"
  by (simp add: calculate_cosine_similarity_def Let_def keys_def)


lemma cosine_raises:
  assumes "keys vec1 \<inter> keys vec2 \<noteq> {}"
  shows "l2_norm ar vec1 = Inl e \<Longrightarrow> calculate_cosine_similarity ar vec1 vec2 = Inl e"
    and "l2_norm ar vec1 = Inr norm1 \<Longrightarrow> l2_norm ar vec2 = Inl e \<Longrightarrow>
         calculate_cosine_similarity ar vec1 vec2 = Inl e"
  using assms by (simp_all add: calculate_cosine_similarity_def Let_def keys_def)

lemma cosine_exchanged:
  assumes "\<And>x y. float_mul ar x y = float_mul ar y x"
    and "iteration_order ar (map fst vec1) (map fst vec2) =
         iteration_order ar (map fst vec2) (map fst vec1)"
    and "l2_norm ar vec1 = Inr norm1" and "l2_norm ar vec2 = Inr norm2"
  shows "calculate_cosine_similarity ar vec1 vec2 = calculate_cosine_similarity ar vec2 vec1"
proof -
  have "float_mul ar norm1 norm2 = float_mul ar norm2 norm1"
    by (rule assms(1))
  moreover have "(\<lambda>word. float_mul ar (item vec1 word) (item vec2 word)) =
      (\<lambda>word. float_mul ar (item vec2 word) (item vec1 word))"
    by (intro ext assms(1))
  ultimately show ?thesis
    using assms(2-4)
    by (auto simp: calculate_cosine_similarity_def Let_def Int_commute)
qed

section \<open>Adding under an identifier that is indexed already\<close>

text \<open>
  Claim C2. Adding a document under an identifier that is indexed already keeps the terms
  of the earlier content: the postings of \<open>d1\<close> after the second call are not those of
  the new content alone.
\<close>

theorem readd_keeps_old_terms:
  "forward_index (add_document keep_text
      (add_document keep_text (empty_index :: 'f index_state) ''d1'' ''cat cat cat'')
      ''d1'' ''dog'') = [(''d1'', [(''cat'', 3), (''dog'', 1)])] \<and>
   inverted_index (add_document keep_text
      (add_document keep_text (empty_index :: 'f index_state) ''d1'' ''cat cat cat'')
      ''d1'' ''dog'') = [(''cat'', [(''d1'', 3)]), (''dog'', [(''d1'', 1)])] \<and>
   document_lengths (add_document keep_text
      (add_document keep_text (empty_index :: 'f index_state) ''d1'' ''cat cat cat'')
      ''d1'' ''dog'') = [(''d1'', 1)] \<and>
   forward_index (add_document keep_text (empty_index :: 'f index_state) ''d1'' ''dog'')
     = [(''d1'', [(''dog'', 1)])] \<and>
   inverted_index (add_document keep_text (empty_index :: 'f index_state) ''d1'' ''dog'')
     = [(''dog'', [(''d1'', 1)])]"
  by code_simp

text \<open>
  What \<open>calculate_tf\<close> returns: 0 when the document or the term is not in the forward
  index, otherwise the count over the stored length (1 when no length is stored).
\<close>

lemma calculate_tf_absent:
  "map_of (forward_index s) doc_id = None \<or>
   map_of (entries (forward_index s) doc_id) word = None \<Longrightarrow>
   calculate_tf ar s word doc_id = Inr 0"
  by (auto simp: calculate_tf_def entries_def split: option.splits)

lemma calculate_tf_present:
  "map_of (forward_index s) doc_id = Some terms \<Longrightarrow> map_of terms word = Some n \<Longrightarrow>
   calculate_tf ar s word doc_id =
     py_int_truediv ar n
       (case map_of (document_lengths s) doc_id of None \<Rightarrow> 1 | Some len \<Rightarrow> len)"
  by (simp add: calculate_tf_def)

text \<open>
  Claim C3. In the state reached by these two calls the term frequency of \<open>cat\<close> in
  \<open>d1\<close> is the quotient of 3 by 1, whatever the arithmetic, which is 3: the count kept
  from the first content over the length of the second.
\<close>

theorem tf_exceeds_one:
  "calculate_tf ar (run ar keep_text [Add ''d1'' ''cat cat cat'', Add ''d1'' ''dog'']) ''cat'' ''d1''
     = Inr (int_div ar 3 1) \<and>
   calculate_tf real_arithmetic
     (run real_arithmetic keep_text [Add ''d1'' ''cat cat cat'', Add ''d1'' ''dog'']) ''cat'' ''d1''
     = Inr 3"
proof -
  have w1: "Counter (py_split (keep_text ''cat cat cat'')) = [(''cat'', 3)]"
    and w2: "Counter (py_split (keep_text ''dog'')) = [(''dog'', 1)]"
    and k1: "keep_text ''cat cat cat'' \<noteq> []" and k2: "keep_text ''dog'' \<noteq> []"
    by code_simp+
  have f: "forward_index (run ar keep_text [Add ''d1'' ''cat cat cat'', Add ''d1'' ''dog''])
      = [(''d1'', [(''cat'', 3), (''dog'', 1)])]"
    and l: "document_lengths (run ar keep_text [Add ''d1'' ''cat cat cat'', Add ''d1'' ''dog''])
      = [(''d1'', 1)]" for ar :: "('f::{zero,linorder}) arithmetic"
    using k1 k2
    by (simp_all add: run_def add_document_def Let_def w1 w2 add_posting_eq entries_def
        empty_index_def)
  have g: "calculate_tf ar (run ar keep_text [Add ''d1'' ''cat cat cat'', Add ''d1'' ''dog''])
      ''cat'' ''d1'' = Inr (int_div ar 3 1)" for ar :: "('f::{zero,linorder}) arithmetic"
    by (simp add: calculate_tf_def f l py_int_truediv_def)
  show ?thesis
    using g[of ar] g[of real_arithmetic] by (simp add: real_arithmetic_def)
qed

section \<open>Adding a document twice\<close>

lemma update_entries_same:
  "contains d k \<Longrightarrow> AList.update k (entries d k) d = d"
  by (auto simp: contains_def entries_def intro: update_triv)

lemma contains_update: "contains (AList.update k v d) k' \<longleftrightarrow> k' = k \<or> contains d k'"
  by (simp add: contains_def update_conv')

lemma posted_add_posting_id:
  assumes "posted doc_id wc s"
  shows "add_posting doc_id wc s = s"
proof -
  from assms have "AList.update doc_id (snd wc) (entries (inverted_index s) (fst wc))
      = entries (inverted_index s) (fst wc)"
    and "AList.update (fst wc) (snd wc) (entries (forward_index s) doc_id)
      = entries (forward_index s) doc_id"
    by (simp_all add: posted_def update_triv)
  then show ?thesis using assms
    by (simp add: add_posting_eq posted_def update_entries_same)
qed

lemma posted_add_posting: "posted doc_id wc (add_posting doc_id wc s)"
  by (simp add: posted_def add_posting_eq contains_update entries_update update_conv')

lemma posted_add_posting_other:
  "posted doc_id wc s \<Longrightarrow> fst wc' \<noteq> fst wc \<Longrightarrow> posted doc_id wc (add_posting doc_id wc' s)"
  by (simp add: posted_def add_posting_eq contains_update entries_update update_conv')

lemma posted_fold_other:
  "posted doc_id wc s \<Longrightarrow> fst wc \<notin> keys wcs \<Longrightarrow> posted doc_id wc (fold (add_posting doc_id) wcs s)"
proof (induction wcs arbitrary: s)
  case Nil
  then show ?case by simp
next
  case (Cons x xs)
  then have "posted doc_id wc (add_posting doc_id x s)"
    by (intro posted_add_posting_other) (auto simp: keys_def)
  with Cons show ?case by (simp add: keys_def)
qed

lemma posted_fold:
  "distinct (map fst wcs) \<Longrightarrow> wc \<in> set wcs \<Longrightarrow> posted doc_id wc (fold (add_posting doc_id) wcs s)"
proof (induction wcs arbitrary: s)
  case Nil
  then show ?case by simp
next
  case (Cons x xs)
  show ?case
  proof (cases "wc = x")
    case True
    have "fst wc \<notin> keys xs" using Cons.prems(1) True by (simp add: keys_def)
    then show ?thesis using True posted_fold_other[OF posted_add_posting] by simp
  next
    case False
    then show ?thesis using Cons by simp
  qed
qed

lemma fold_add_posting_id:
  "(\<And>wc. wc \<in> set wcs \<Longrightarrow> posted doc_id wc s) \<Longrightarrow> fold (add_posting doc_id) wcs s = s"
  by (induction wcs) (simp_all add: posted_add_posting_id)

lemma distinct_count_word: "distinct (map fst c) \<Longrightarrow> distinct (map fst (count_word w c))"
  by (simp add: count_word_def distinct_update)

lemma distinct_fold_count_word:
  "distinct (map fst c) \<Longrightarrow> distinct (map fst (fold count_word ws c))"
  by (induction ws arbitrary: c) (simp_all add: distinct_count_word)

lemma distinct_Counter: "distinct (map fst (Counter ws))"
  by (simp add: Counter_def distinct_fold_count_word)

lemma fold_add_posting_twice:
  "fold (add_posting doc_id) (Counter ws) (fold (add_posting doc_id) (Counter ws) s)
     = fold (add_posting doc_id) (Counter ws) s"
  by (rule fold_add_posting_id) (simp add: posted_fold distinct_Counter)

lemma fold_add_posting_fields:
  "document_lengths (fold (add_posting doc_id) wcs s) = document_lengths s"
  "idf_cache (fold (add_posting doc_id) wcs s) = idf_cache s"
  "total_documents (fold (add_posting doc_id) wcs s) = total_documents s"
  "tf_idf_weights (fold (add_posting doc_id) wcs s) = tf_idf_weights s"
  by (induction wcs arbitrary: s) (simp_all add: add_posting_eq)

lemma add_posting_update:
  "add_posting doc_id wc (s\<lparr>document_lengths := l, idf_cache := c, total_documents := n\<rparr>)
     = (add_posting doc_id wc s)\<lparr>document_lengths := l, idf_cache := c, total_documents := n\<rparr>"
  by (simp add: add_posting_eq)

lemma fold_add_posting_update:
  "fold (add_posting doc_id) wcs (s\<lparr>document_lengths := l, idf_cache := c, total_documents := n\<rparr>)
     = (fold (add_posting doc_id) wcs s)\<lparr>document_lengths := l, idf_cache := c, total_documents := n\<rparr>"
  by (induction wcs arbitrary: s) (simp_all add: add_posting_update)

text \<open>
  Claim C9. Adding the same content under the same identifier twice in succession gives
  the state that adding it once gives.
\<close>

theorem add_document_idempotent:
  "add_document pp (add_document pp s doc_id text) doc_id text = add_document pp s doc_id text"
proof (cases "pp text = []")
  case True
  then show ?thesis by (simp add: add_document_def)
next
  case False
  let ?wcs = "Counter (py_split (pp text))"
  let ?s1 = "fold (add_posting doc_id) ?wcs s"
  let ?n = "sum_list (map snd ?wcs)"
  have once: "add_document pp s doc_id text =
      ?s1\<lparr>document_lengths := AList.update doc_id ?n (document_lengths s), idf_cache := [],
           total_documents := length (forward_index ?s1)\<rparr>"
    using False by (simp add: add_document_def Let_def fold_add_posting_fields)
  have "fold (add_posting doc_id) ?wcs (add_document pp s doc_id text) =
      ?s1\<lparr>document_lengths := AList.update doc_id ?n (document_lengths s), idf_cache := [],
           total_documents := length (forward_index ?s1)\<rparr>"
    unfolding once by (simp add: fold_add_posting_update fold_add_posting_twice)
  then have "add_document pp (add_document pp s doc_id text) doc_id text =
      ?s1\<lparr>document_lengths := AList.update doc_id ?n (document_lengths s), idf_cache := [],
           total_documents := length (forward_index ?s1)\<rparr>"
    using False by (simp add: add_document_def[of pp "add_document pp s doc_id text"] Let_def)
  then show ?thesis by (simp add: once)
qed

section \<open>The cached inverse document frequency\<close>

lemma idf_cache_irrelevant [simp]:
  "inverse_document_frequency ar (s\<lparr>idf_cache := c\<rparr>) = inverse_document_frequency ar s"
  by (rule ext) (simp add: inverse_document_frequency_def split: option.splits)

lemma posting_gives_document:
  assumes "consistent s" and "map_of (inverted_index s) word = Some postings"
  shows "postings \<noteq> [] \<and> forward_index s \<noteq> []"
proof -
  have e: "entries (inverted_index s) word = postings"
    using assms(2) by (simp add: entries_def)
  have "word \<in> keys (inverted_index s)"
    using assms(2) by (auto simp: keys_def dest: map_of_SomeD intro: rev_image_eqI)
  then have ne: "postings \<noteq> []"
    using assms(1) e by (auto simp: consistent_def)
  then obtain d where "d \<in> keys postings"
    by (cases postings) (auto simp: keys_def)
  then have "word \<in> keys (entries (forward_index s) d)"
    using assms(1) e by (auto simp: consistent_def)
  then have "entries (forward_index s) d \<noteq> []"
    by (auto simp: keys_def)
  then have "d \<in> keys (forward_index s)"
    by (rule entries_nonempty_key)
  then have "forward_index s \<noteq> []"
    by (auto simp: keys_def)
  with ne show ?thesis by simp
qed

lemma valid_cache [simp]:
  "valid ar (s\<lparr>idf_cache := idf_cache s\<rparr>) = valid ar s"
  by simp

lemma refreshed_refl: "valid ar s \<Longrightarrow> refreshed ar s s"
  by (simp add: refreshed_def)

lemma refreshed_valid: "refreshed ar s s' \<Longrightarrow> valid ar s'"
  by (simp add: refreshed_def)

lemma refreshed_trans: "refreshed ar s s1 \<Longrightarrow> refreshed ar s1 s2 \<Longrightarrow> refreshed ar s s2"
  unfolding refreshed_def
  by (metis (no_types, lifting) index_state.surjective index_state.update_convs(6))

lemma refreshed_index:
  assumes "refreshed ar s s'"
  shows "forward_index s' = forward_index s" "inverted_index s' = inverted_index s"
    "total_documents s' = total_documents s" "document_lengths s' = document_lengths s"
proof -
  from assms have "s' = s\<lparr>idf_cache := idf_cache s'\<rparr>" by (simp add: refreshed_def)
  then have "forward_index s' = forward_index (s\<lparr>idf_cache := idf_cache s'\<rparr>)"
    "inverted_index s' = inverted_index (s\<lparr>idf_cache := idf_cache s'\<rparr>)"
    "total_documents s' = total_documents (s\<lparr>idf_cache := idf_cache s'\<rparr>)"
    "document_lengths s' = document_lengths (s\<lparr>idf_cache := idf_cache s'\<rparr>)"
    by simp_all
  then show "forward_index s' = forward_index s" "inverted_index s' = inverted_index s"
    "total_documents s' = total_documents s" "document_lengths s' = document_lengths s"
    by simp_all
qed

lemma refreshed_idf:
  assumes "refreshed ar s s'"
  shows "inverse_document_frequency ar s' = inverse_document_frequency ar s"
proof -
  from assms have "s' = s\<lparr>idf_cache := idf_cache s'\<rparr>" by (simp add: refreshed_def)
  from arg_cong[OF this, of "inverse_document_frequency ar"] show ?thesis
    by (simp only: idf_cache_irrelevant)
qed

lemma calculate_tf_cache [simp]:
  "calculate_tf ar (s\<lparr>idf_cache := c\<rparr>) = calculate_tf ar s"
  by (intro ext) (simp add: calculate_tf_def split: option.splits)

lemma refreshed_tf:
  assumes "refreshed ar s s'"
  shows "calculate_tf ar s' = calculate_tf ar s"
proof -
  from assms have "s' = s\<lparr>idf_cache := idf_cache s'\<rparr>" by (simp add: refreshed_def)
  from arg_cong[OF this, of "calculate_tf ar"] show ?thesis
    by (simp only: calculate_tf_cache)
qed

lemma computes_raises: "value = Inl e \<Longrightarrow> result = Inl e \<Longrightarrow> computes ar s result value"
  by (simp add: computes_def)

lemma computes_returns:
  "value = Inr v \<Longrightarrow> result = Inr (v, s') \<Longrightarrow> refreshed ar s s' \<Longrightarrow> computes ar s result value"
  by (auto simp: computes_def)

text \<open>
  A call of \<open>calculate_idf\<close> in a state refreshed from \<open>s\<close> computes the inverse document
  frequency of \<open>s\<close>: a cached value is that value, and a value that is computed is cached.
\<close>

lemma calculate_idf_computes:
  assumes "refreshed ar s0 s"
  shows "computes ar s0 (calculate_idf ar s word) (inverse_document_frequency ar s0 word)"
proof -
  from assms have v: "valid ar s" by (rule refreshed_valid)
  have idf: "inverse_document_frequency ar s0 = inverse_document_frequency ar s"
    using refreshed_idf[OF assms] by simp
  show ?thesis
  proof (cases "map_of (idf_cache s) word")
    case (Some cached)
    then have "inverse_document_frequency ar s word = Inr cached"
      using v by (simp add: valid_def cache_ok_def)
    moreover have "calculate_idf ar s word = Inr (cached, s)"
      using Some by (simp add: calculate_idf_def)
    ultimately show ?thesis
      using assms by (intro computes_returns) (simp_all add: idf)
  next
    case None
    show ?thesis
    proof (cases "inverse_document_frequency ar s word")
      case (Inl e)
      then have "calculate_idf ar s word = Inl e"
        using None
        by (auto simp: calculate_idf_def inverse_document_frequency_def Let_def
            split: option.splits if_splits sum.splits)
      with Inl show ?thesis by (intro computes_raises) (simp_all add: idf)
    next
      case (Inr x)
      show ?thesis
      proof (cases "map_of (inverted_index s) word")
        case inv_None: None
        then have "calculate_idf ar s word = Inr (x, s)"
          using None Inr by (simp add: calculate_idf_def inverse_document_frequency_def)
        with Inr show ?thesis
          using assms by (intro computes_returns) (simp_all add: idf)
      next
        case (Some postings)
        let ?s' = "s\<lparr>idf_cache := AList.update word x (idf_cache s)\<rparr>"
        have call: "calculate_idf ar s word = Inr (x, ?s')"
          using None Some Inr
          by (auto simp: calculate_idf_def inverse_document_frequency_def Let_def
              split: if_splits sum.splits)
        have "cache_ok ar ?s'"
          using v Inr by (auto simp: valid_def cache_ok_def update_conv')
        then have "valid ar ?s'"
          using v by (simp add: valid_def)
        moreover have "?s' = s0\<lparr>idf_cache := idf_cache ?s'\<rparr>"
          using assms unfolding refreshed_def
          by (metis (no_types, lifting) index_state.surjective index_state.update_convs(6)
              index_state.select_convs(6))
        ultimately have "refreshed ar s0 ?s'"
          by (simp add: refreshed_def)
        with Inr call show ?thesis
          by (intro computes_returns) (simp_all add: idf)
      qed
    qed
  qed
qed

lemma computes_Inr:
  "computes ar s result value \<Longrightarrow> result = Inr (v, s') \<Longrightarrow> value = Inr v \<and> refreshed ar s s'"
  by (auto simp: computes_def split: sum.splits)

lemma valid_add_document:
  assumes "valid ar s"
  shows "valid ar (add_document pp s doc_id text)"
proof (cases "pp text = []")
  case True
  then show ?thesis using assms by (simp add: add_document_def)
next
  case False
  have "consistent (add_document pp s doc_id text)"
    using assms by (simp add: valid_def consistent_add_document)
  moreover have "idf_cache (add_document pp s doc_id text) = []"
    and "total_documents (add_document pp s doc_id text)
           = length (forward_index (add_document pp s doc_id text))"
    using False by (simp_all add: add_document_def Let_def)
  ultimately show ?thesis by (simp add: valid_def cache_ok_def)
qed

lemma remove_document_fields:
  assumes "map_of (forward_index s) doc_id \<noteq> None"
  shows "idf_cache (remove_document s doc_id) = []"
    and "total_documents (remove_document s doc_id) = length (forward_index (remove_document s doc_id))"
  using assms by (auto simp: remove_document_def Let_def)

lemma valid_remove_document:
  assumes "valid ar s"
  shows "valid ar (remove_document s doc_id)"
proof (cases "map_of (forward_index s) doc_id")
  case None
  then show ?thesis using assms by (simp add: remove_document_def)
next
  case (Some terms)
  have "consistent (remove_document s doc_id)"
    using assms by (simp add: valid_def consistent_remove_document)
  with remove_document_fields[of s doc_id] Some show ?thesis
    by (simp add: valid_def cache_ok_def)
qed

lemma valid_apply_call:
  assumes "valid ar s"
  shows "valid ar (apply_call ar pp c s)"
proof (cases c)
  case (Idf w)
  show ?thesis
  proof (cases "calculate_idf ar s w")
    case (Inl e)
    then show ?thesis using Idf assms by simp
  next
    case (Inr r)
    obtain v s' where r: "r = (v, s')" by (cases r)
    from computes_Inr[OF calculate_idf_computes[OF refreshed_refl[OF assms], of w]] Inr r
    have "refreshed ar s s'" by simp
    then show ?thesis using Idf Inr r by (simp add: refreshed_def)
  qed
qed (simp_all add: assms valid_add_document valid_remove_document)

lemma valid_fold_calls: "valid ar s \<Longrightarrow> valid ar (fold (apply_call ar pp) calls s)"
  by (induction calls arbitrary: s) (simp_all add: valid_apply_call)

lemma valid_run: "valid ar (run ar pp calls)"
proof -
  have "valid ar empty_index"
    using consistent_empty by (simp add: valid_def cache_ok_def) (simp add: empty_index_def)
  then show ?thesis by (simp add: run_def valid_fold_calls)
qed

text \<open>
  Over the real numbers the computation never raises in a valid state: a term of the
  inverted index has a posting, so there is a document, and the quotient is positive.
\<close>

lemma real_idf:
  assumes "valid real_arithmetic s"
  shows "inverse_document_frequency real_arithmetic s word =
     Inr (case map_of (inverted_index s) word of
            None \<Rightarrow> 0
          | Some postings \<Rightarrow> ln (real (total_documents s) / real (length postings)))"
proof (cases "map_of (inverted_index s) word")
  case None
  then show ?thesis by (simp add: inverse_document_frequency_def)
next
  case (Some postings)
  from assms have c: "consistent s" and t: "total_documents s = length (forward_index s)"
    by (simp_all add: valid_def)
  from posting_gives_document[OF c Some] t
  have pos: "length postings \<noteq> 0" "total_documents s \<noteq> 0" by simp_all
  then have "real (total_documents s) / real (length postings) > 0" by simp
  then have nle: "\<not> real (total_documents s) / real (length postings) \<le> 0" by linarith
  have idv: "int_div real_arithmetic a b = real a / real b" for a b
    by (simp add: real_arithmetic_def)
  have "py_log real_arithmetic (real (total_documents s) / real (length postings))
      = Inr (ln (real (total_documents s) / real (length postings)))"
    unfolding py_log_def by (simp only: if_not_P[OF nle]) (simp add: real_arithmetic_def)
  then have log: "py_log real_arithmetic
        (int_div real_arithmetic (total_documents s) (length postings))
      = Inr (ln (real (total_documents s) / real (length postings)))"
    by (simp only: idv)
  show ?thesis
    using Some pos(1)
    by (simp add: inverse_document_frequency_def py_int_truediv_def log)
qed

text \<open>
  Claim C4. In every state reached by calls of \<open>add_document\<close>, \<open>remove_document\<close> and
  \<open>calculate_idf\<close>, \<open>calculate_idf\<close> gives, for every term, what the computation from the
  index as it is now gives: it raises what that computation raises, and returns the value
  that it returns. Over the real numbers that value is 0 for a term that is not in the
  inverted index, and otherwise the logarithm of \<open>total_documents\<close> over the number of
  postings.
\<close>

theorem idf_cache_never_stale:
  "(case inverse_document_frequency ar (run ar pp calls) word of
      Inl e \<Rightarrow> calculate_idf ar (run ar pp calls) word = Inl e
    | Inr v \<Rightarrow> (\<exists>s'. calculate_idf ar (run ar pp calls) word = Inr (v, s'))) \<and>
   (\<exists>s'. calculate_idf real_arithmetic (run real_arithmetic pp calls) word =
      Inr (case map_of (inverted_index (run real_arithmetic pp calls)) word of
             None \<Rightarrow> 0
           | Some postings \<Rightarrow>
               ln (real (total_documents (run real_arithmetic pp calls)) / real (length postings)),
           s'))"
proof
  have "computes ar (run ar pp calls) (calculate_idf ar (run ar pp calls) word)
          (inverse_document_frequency ar (run ar pp calls) word)"
    by (intro calculate_idf_computes refreshed_refl valid_run)
  then show "case inverse_document_frequency ar (run ar pp calls) word of
      Inl e \<Rightarrow> calculate_idf ar (run ar pp calls) word = Inl e
    | Inr v \<Rightarrow> (\<exists>s'. calculate_idf ar (run ar pp calls) word = Inr (v, s'))"
    by (auto simp: computes_def split: sum.splits)
next
  let ?s = "run real_arithmetic pp calls"
  have "computes real_arithmetic ?s (calculate_idf real_arithmetic ?s word)
          (inverse_document_frequency real_arithmetic ?s word)"
    by (intro calculate_idf_computes refreshed_refl valid_run)
  then show "\<exists>s'. calculate_idf real_arithmetic ?s word =
      Inr (case map_of (inverted_index ?s) word of
             None \<Rightarrow> 0
           | Some postings \<Rightarrow> ln (real (total_documents ?s) / real (length postings)),
           s')"
    by (auto simp: computes_def real_idf[OF valid_run])
qed

lemma idf_run_example:
  "run real_arithmetic keep_text [Add ''d1'' ''cat dog cat'', Idf ''cat'', Add ''d2'' ''dog bird''] =
    \<lparr>inverted_index = [(''cat'', [(''d1'', 2)]), (''dog'', [(''d1'', 1), (''d2'', 1)]),
                        (''bird'', [(''d2'', 1)])],
     forward_index = [(''d1'', [(''cat'', 2), (''dog'', 1)]), (''d2'', [(''dog'', 1), (''bird'', 1)])],
     total_documents = 2, document_lengths = [(''d1'', 3), (''d2'', 2)], tf_idf_weights = [],
     idf_cache = []\<rparr>"
proof -
  have 1: "add_document keep_text (empty_index :: real index_state) ''d1'' ''cat dog cat'' =
    \<lparr>inverted_index = [(''cat'', [(''d1'', 2)]), (''dog'', [(''d1'', 1)])],
     forward_index = [(''d1'', [(''cat'', 2), (''dog'', 1)])],
     total_documents = 1, document_lengths = [(''d1'', 3)], tf_idf_weights = [],
     idf_cache = []\<rparr>"
    by code_simp
  have 2: "calculate_idf real_arithmetic
     \<lparr>inverted_index = [(''cat'', [(''d1'', 2)]), (''dog'', [(''d1'', 1)])],
      forward_index = [(''d1'', [(''cat'', 2), (''dog'', 1)])],
      total_documents = 1, document_lengths = [(''d1'', 3)], tf_idf_weights = [],
      idf_cache = []\<rparr> ''cat'' =
     Inr (0, \<lparr>inverted_index = [(''cat'', [(''d1'', 2)]), (''dog'', [(''d1'', 1)])],
      forward_index = [(''d1'', [(''cat'', 2), (''dog'', 1)])],
      total_documents = 1, document_lengths = [(''d1'', 3)], tf_idf_weights = [],
      idf_cache = [(''cat'', 0)]\<rparr>)"
    by (simp add: calculate_idf_def py_int_truediv_def py_log_def real_arithmetic_def)
  have 3: "add_document keep_text
     \<lparr>inverted_index = [(''cat'', [(''d1'', 2)]), (''dog'', [(''d1'', 1)])],
      forward_index = [(''d1'', [(''cat'', 2), (''dog'', 1)])],
      total_documents = 1, document_lengths = [(''d1'', 3)], tf_idf_weights = [],
      idf_cache = [(''cat'', 0::real)]\<rparr> ''d2'' ''dog bird'' =
    \<lparr>inverted_index = [(''cat'', [(''d1'', 2)]), (''dog'', [(''d1'', 1), (''d2'', 1)]),
                        (''bird'', [(''d2'', 1)])],
     forward_index = [(''d1'', [(''cat'', 2), (''dog'', 1)]), (''d2'', [(''dog'', 1), (''bird'', 1)])],
     total_documents = 2, document_lengths = [(''d1'', 3), (''d2'', 2)], tf_idf_weights = [],
     idf_cache = []\<rparr>"
    by code_simp
  show ?thesis
    unfolding run_def
    by (simp only: fold_simps apply_call.simps 1 2 sum.case prod.case 3)
qed

theorem idf_cache_never_stale_witness:
  "(\<exists>s'. calculate_idf real_arithmetic
      (run real_arithmetic keep_text [Add ''d1'' ''cat dog cat'', Idf ''cat'', Add ''d2'' ''dog bird''])
      ''cat'' = Inr (ln 2, s')) \<and>
   (\<exists>s'. calculate_idf real_arithmetic
      (run real_arithmetic keep_text [Add ''d1'' ''cat dog cat'', Idf ''cat'', Add ''d2'' ''dog bird''])
      ''dog'' = Inr (0, s')) \<and>
   (\<exists>s'. calculate_idf real_arithmetic
      (run real_arithmetic keep_text [Add ''d1'' ''cat dog cat'', Idf ''cat'', Add ''d2'' ''dog bird''])
      ''fish'' = Inr (0, s'))"
  using
    idf_cache_never_stale[of real_arithmetic keep_text
      "[Add ''d1'' ''cat dog cat'', Idf ''cat'', Add ''d2'' ''dog bird'']" "''cat''"]
    idf_cache_never_stale[of real_arithmetic keep_text
      "[Add ''d1'' ''cat dog cat'', Idf ''cat'', Add ''d2'' ''dog bird'']" "''dog''"]
    idf_cache_never_stale[of real_arithmetic keep_text
      "[Add ''d1'' ''cat dog cat'', Idf ''cat'', Add ''d2'' ''dog bird'']" "''fish''"]
  unfolding idf_run_example by simp

section \<open>Searching the index\<close>

lemma calculate_tf_idf_computes:
  assumes "refreshed ar s0 s"
  shows "computes ar s0 (calculate_tf_idf ar s word doc_id) (tf_idf ar s0 word doc_id)"
proof (cases "calculate_tf ar s0 word doc_id")
  case (Inl e)
  then show ?thesis
    by (intro computes_raises)
      (simp_all add: tf_idf_def calculate_tf_idf_def refreshed_tf[OF assms])
next
  case tf: (Inr tf)
  show ?thesis
  proof (cases "inverse_document_frequency ar s0 word")
    case (Inl e)
    with calculate_idf_computes[OF assms, of word] have "calculate_idf ar s word = Inl e"
      by (simp add: computes_def)
    with Inl tf show ?thesis
      by (intro computes_raises)
        (simp_all add: tf_idf_def calculate_tf_idf_def refreshed_tf[OF assms])
  next
    case (Inr idf)
    with calculate_idf_computes[OF assms, of word] obtain s' where
      "calculate_idf ar s word = Inr (idf, s')" "refreshed ar s0 s'"
      by (auto simp: computes_def)
    with Inr tf show ?thesis
      by (intro computes_returns[where s' = s'])
        (simp_all add: tf_idf_def calculate_tf_idf_def refreshed_tf[OF assms])
  qed
qed

lemma document_vector_loop_computes:
  "refreshed ar s0 s \<Longrightarrow>
   computes ar s0 (document_vector_loop ar s doc_id ws vec) (document_weights ar s0 doc_id ws vec)"
proof (induction ws arbitrary: s vec)
  case Nil
  then show ?case by (simp add: computes_def)
next
  case (Cons w ws)
  show ?case
  proof (cases "tf_idf ar s0 w doc_id")
    case (Inl e)
    with calculate_tf_idf_computes[OF Cons.prems, of w doc_id]
    have "calculate_tf_idf ar s w doc_id = Inl e" by (simp add: computes_def)
    with Inl show ?thesis by (simp add: computes_def)
  next
    case (Inr weight)
    with calculate_tf_idf_computes[OF Cons.prems, of w doc_id] obtain s1 where
      s1: "calculate_tf_idf ar s w doc_id = Inr (weight, s1)" "refreshed ar s0 s1"
      by (auto simp: computes_def)
    from Cons.IH[OF s1(2), of "AList.update w weight vec"] Inr s1(1)
    show ?thesis by simp
  qed
qed

lemma get_document_vector_computes:
  assumes "refreshed ar s0 s"
  shows "computes ar s0 (get_document_vector ar s doc_id) (document_vector ar s0 doc_id)"
proof (cases "map_of (forward_index s0) doc_id")
  case None
  then show ?thesis using assms
    by (simp add: get_document_vector_def document_vector_def entries_def computes_def
        refreshed_index[OF assms])
next
  case (Some terms)
  with document_vector_loop_computes[OF assms, of doc_id "map fst terms" "[]"]
  show ?thesis
    by (simp add: get_document_vector_def document_vector_def entries_def
        refreshed_index[OF assms])
qed

lemma query_vector_loop_computes:
  "refreshed ar s0 s \<Longrightarrow>
   computes ar s0 (query_vector_loop ar s wcs vec) (query_weights ar s0 wcs vec)"
proof (induction wcs arbitrary: s vec)
  case Nil
  then show ?case by (simp add: computes_def)
next
  case (Cons wc wcs)
  obtain w n where wc: "wc = (w, n)" by (cases wc)
  show ?case
  proof (cases "inverse_document_frequency ar s0 w")
    case (Inl e)
    with calculate_idf_computes[OF Cons.prems, of w]
    have "calculate_idf ar s w = Inl e" by (simp add: computes_def)
    with Inl wc show ?thesis by (simp add: computes_def)
  next
    case (Inr idf)
    with calculate_idf_computes[OF Cons.prems, of w] obtain s1 where
      s1: "calculate_idf ar s w = Inr (idf, s1)" "refreshed ar s0 s1"
      by (auto simp: computes_def)
    from Cons.IH[OF s1(2), of "AList.update w (float_mul ar (int_to_float ar n) idf) vec"]
      Inr s1(1) wc
    show ?thesis by simp
  qed
qed

lemma Counter_Nil [simp]: "Counter [] = []"
  by (simp add: Counter_def)

lemma py_split_Nil [simp]: "py_split [] = []"
  by (simp add: py_split_def)

lemma get_query_vector_computes:
  assumes "refreshed ar s0 s"
  shows "computes ar s0 (get_query_vector ar pp s query) (query_vector ar pp s0 query)"
proof (cases "pp query = []")
  case True
  then show ?thesis using assms
    by (simp add: get_query_vector_def query_vector_def computes_def)
next
  case False
  with query_vector_loop_computes[OF assms, of "Counter (py_split (pp query))" "[]"]
  show ?thesis by (simp add: get_query_vector_def query_vector_def)
qed

lemma map_filter_Cons:
  "List.map_filter f (x # xs) = (case f x of None \<Rightarrow> List.map_filter f xs
                                 | Some y \<Rightarrow> y # List.map_filter f xs)"
  by (simp add: List.map_filter_simps)

lemma positive_hit_eq:
  assumes "query_vector ar pp s query = Inr qv" and "document_vector ar s d = Inr dv"
    and "calculate_cosine_similarity ar qv dv = Inr x"
  shows "similarity ar pp s query d = Inr x"
    and "positive_hit ar pp s query d = (if x > 0 then Some (d, x) else None)"
  using assms by (simp_all add: similarity_def positive_hit_def)

text \<open>
  The loop of \<open>search\<close>: when it returns, it has appended the ranking of the documents it
  went through; and it returns when the similarity of each of them can be computed.
\<close>

lemma search_loop_result:
  "refreshed ar s0 s \<Longrightarrow> query_vector ar pp s0 query = Inr qv \<Longrightarrow>
   search_loop ar s qv ds sims = Inr (r, s') \<Longrightarrow>
   r = sims @ List.map_filter (positive_hit ar pp s0 query) ds \<and> refreshed ar s0 s'"
proof (induction ds arbitrary: s sims)
  case Nil
  then show ?case by (simp add: List.map_filter_simps)
next
  case (Cons d ds)
  from Cons.prems(3) obtain dv s1 where
    dv: "get_document_vector ar s d = Inr (dv, s1)"
    by (auto split: sum.splits)
  from computes_Inr[OF get_document_vector_computes[OF Cons.prems(1), of d] dv]
  have pure: "document_vector ar s0 d = Inr dv" and s1: "refreshed ar s0 s1" by simp_all
  from Cons.prems(3) dv obtain x where
    x: "calculate_cosine_similarity ar qv dv = Inr x"
    by (auto split: sum.splits)
  let ?sims = "if x > 0 then sims @ [(d, x)] else sims"
  from Cons.prems(3) dv x have "search_loop ar s1 qv ds ?sims = Inr (r, s')"
    by simp
  from Cons.IH[OF s1 Cons.prems(2) this]
  have "r = ?sims @ List.map_filter (positive_hit ar pp s0 query) ds" and "refreshed ar s0 s'"
    by simp_all
  then show ?case
    by (simp add: map_filter_Cons positive_hit_eq(2)[OF Cons.prems(2) pure x])
qed

lemma search_loop_returns:
  "refreshed ar s0 s \<Longrightarrow> query_vector ar pp s0 query = Inr qv \<Longrightarrow>
   (\<And>d. d \<in> set ds \<Longrightarrow> \<exists>x. similarity ar pp s0 query d = Inr x) \<Longrightarrow>
   \<exists>r s'. search_loop ar s qv ds sims = Inr (r, s')"
proof (induction ds arbitrary: s sims)
  case Nil
  then show ?case by simp
next
  case (Cons d ds)
  from Cons.prems(3)[of d] obtain x where "similarity ar pp s0 query d = Inr x" by auto
  with Cons.prems(2) obtain dv where
    dv: "document_vector ar s0 d = Inr dv" and x: "calculate_cosine_similarity ar qv dv = Inr x"
    by (auto simp: similarity_def split: sum.splits)
  from get_document_vector_computes[OF Cons.prems(1), of d] dv obtain s1 where
    s1: "get_document_vector ar s d = Inr (dv, s1)" "refreshed ar s0 s1"
    by (auto simp: computes_def)
  from Cons.IH[OF s1(2) Cons.prems(2), of "if x > 0 then sims @ [(d, x)] else sims"]
    Cons.prems(3)
  show ?case using s1(1) x by simp
qed

lemma ranking_no_documents: "forward_index s = [] \<Longrightarrow> ranking ar pp s query = []"
  by (simp add: ranking_def List.map_filter_simps)

lemma ranking_empty_query: "query_vector ar pp s query = Inr [] \<Longrightarrow> ranking ar pp s query = []"
proof -
  assume q: "query_vector ar pp s query = Inr []"
  have "positive_hit ar pp s query d = None" for d
    using q by (auto simp: positive_hit_def similarity_def split: sum.splits)
  then show ?thesis by (simp add: ranking_def List.map_filter_def)
qed

lemma sort_by_score_Nil [simp]: "sort_by_score [] = []"
  by (simp add: sort_by_score_def)

lemma slice_to_Nil [simp]: "slice_to k [] = []"
  by (simp add: slice_to_def)

lemma strip_Nil [simp]: "strip [] = []"
  by (simp add: strip_def)

lemma search_nothing:
  "query = [] \<or> total_documents s = 0 \<or> (normaliser pp \<and> strip query = []) \<Longrightarrow>
   search ar pp s query top_k = Inr ([], s)"
  by (auto simp: search_def normaliser_def get_query_vector_def)

lemma search_result:
  assumes "valid ar s" and "query \<noteq> []" and "search ar pp s query top_k = Inr (hits, s')"
  shows "hits = slice_to top_k (sort_by_score (ranking ar pp s query))"
proof (cases "total_documents s = 0")
  case True
  with assms(1) have "forward_index s = []" by (simp add: valid_def)
  then have "ranking ar pp s query = []" by (rule ranking_no_documents)
  moreover from True assms(3) have "hits = []" by (simp add: search_def)
  ultimately show ?thesis by simp
next
  case False
  from assms(2,3) False obtain qv s1 where
    q: "get_query_vector ar pp s query = Inr (qv, s1)"
    by (auto simp: search_def split: sum.splits)
  from computes_Inr[OF get_query_vector_computes[OF refreshed_refl[OF assms(1)], of pp query] q]
  have pure: "query_vector ar pp s query = Inr qv" and s1: "refreshed ar s s1" by simp_all
  show ?thesis
  proof (cases "qv = []")
    case True
    with pure have "ranking ar pp s query = []" by (simp add: ranking_empty_query)
    moreover from True q assms(2,3) False have "hits = []" by (simp add: search_def)
    ultimately show ?thesis by simp
  next
    case qv: False
    from assms(2,3) False q qv obtain sims s2 where
      loop: "search_loop ar s1 qv (map fst (forward_index s1)) [] = Inr (sims, s2)"
      and hits: "hits = slice_to top_k (sort_by_score sims)"
      by (auto simp: search_def split: sum.splits)
    from search_loop_result[OF s1 pure loop]
    have "sims = ranking ar pp s query"
      by (simp add: ranking_def refreshed_index[OF s1])
    with hits show ?thesis by simp
  qed
qed

lemma search_returns:
  assumes "valid ar s"
    and "\<And>d. d \<in> keys (forward_index s) \<Longrightarrow> \<exists>x. similarity ar pp s query d = Inr x"
  shows "\<exists>hits s'. search ar pp s query top_k = Inr (hits, s')"
proof (cases "query = [] \<or> total_documents s = 0")
  case True
  then show ?thesis by (simp add: search_def)
next
  case False
  with assms(1) have "forward_index s \<noteq> []" by (simp add: valid_def)
  then obtain d where d: "d \<in> keys (forward_index s)"
    by (cases "forward_index s") (auto simp: keys_def)
  from assms(2)[OF d] obtain qv where pure: "query_vector ar pp s query = Inr qv"
    by (auto simp: similarity_def split: sum.splits)
  with get_query_vector_computes[OF refreshed_refl[OF assms(1)], of pp query] obtain s1 where
    q: "get_query_vector ar pp s query = Inr (qv, s1)" and s1: "refreshed ar s s1"
    by (auto simp: computes_def)
  have "\<exists>r s'. search_loop ar s1 qv (map fst (forward_index s1)) [] = Inr (r, s')"
    using assms(2) by (intro search_loop_returns[OF s1 pure])
      (simp add: refreshed_index[OF s1] keys_def)
  then show ?thesis using False q by (auto simp: search_def)
qed

lemma sorted_sort_by_score: "sorted_wrt (\<lambda>a b. snd a \<ge> snd b) (sort_by_score xs)"
proof -
  have "sorted (map snd (sort_key snd (rev xs)))"
    by (rule sorted_sort_key)
  then have "sorted_wrt (\<lambda>a b. snd a \<le> snd b) (sort_key snd (rev xs))"
    by (simp add: sorted_map)
  then show ?thesis
    by (simp add: sort_by_score_def sorted_wrt_rev)
qed

lemma sorted_slice_to: "sorted_wrt R xs \<Longrightarrow> sorted_wrt R (slice_to k xs)"
  by (simp add: slice_to_def sorted_wrt_take)

lemma length_slice_to: "0 \<le> k \<Longrightarrow> int (length (slice_to k xs)) \<le> k"
  by (simp add: slice_to_def)

lemma real_arithmetic_simps [simp]:
  "int_div real_arithmetic a b = real a / real b"
  "int_to_float real_arithmetic n = real n"
  "float_mul real_arithmetic x y = x * y"
  "float_add real_arithmetic x y = x + y"
  "float_div real_arithmetic x y = x / y"
  "float_log real_arithmetic x = ln x"
  "float_sqrt real_arithmetic x = sqrt x"
  "float_square real_arithmetic x = Inr (x\<^sup>2)"
  "iteration_order real_arithmetic keys1 keys2 = filter (\<lambda>k. k \<in> set keys2) keys1"
  by (simp_all add: real_arithmetic_def)

lemma cosine_one_term:
  assumes "0 < x" and "0 < y"
  shows "calculate_cosine_similarity real_arithmetic [(w, x)] [(w, y)] = Inr 1"
  using assms
  by (simp add: calculate_cosine_similarity_def l2_norm_def py_sqrt_def py_sum_def
      py_truediv_def item_def)

lemma cosine_one_term_of_two:
  assumes "0 < x" and "0 < y" and "w \<noteq> w'"
  shows "calculate_cosine_similarity real_arithmetic [(w, x)] [(w, y), (w', 0)] = Inr 1"
  using assms
  by (simp add: calculate_cosine_similarity_def l2_norm_def py_sqrt_def py_sum_def
      py_truediv_def item_def)

lemma split_loop_blank: "\<forall>c\<in>set str. is_space c \<Longrightarrow> split_loop [] str = []"
  by (induction str) simp_all

lemma strip_blank:
  assumes "strip str = []"
  shows "\<forall>c\<in>set str. is_space c"
proof -
  from assms have "dropWhile is_space (rev (dropWhile is_space str)) = []"
    by (simp add: strip_def)
  then have all: "\<forall>c\<in>set (dropWhile is_space str). is_space c"
    by (simp add: dropWhile_eq_Nil_conv)
  have "dropWhile is_space str = []"
  proof (rule ccontr)
    assume ne: "dropWhile is_space str \<noteq> []"
    then have "\<not> is_space (hd (dropWhile is_space str))" by (rule hd_dropWhile)
    moreover have "hd (dropWhile is_space str) \<in> set (dropWhile is_space str)"
      using ne by simp
    ultimately show False using all by blast
  qed
  then show ?thesis by (simp add: dropWhile_eq_Nil_conv)
qed

lemma normaliser_keep_text: "normaliser keep_text"
  unfolding normaliser_def
proof (intro allI impI)
  fix str assume "strip str = []"
  then have "py_split str = []"
    unfolding py_split_def by (intro split_loop_blank strip_blank)
  then show "keep_text str = []" by (simp add: keep_text_def)
qed

lemma two_documents:
  "run real_arithmetic keep_text [Add ''d1'' ''cat dog cat'', Add ''d2'' ''dog bird''] =
    \<lparr>inverted_index = [(''cat'', [(''d1'', 2)]), (''dog'', [(''d1'', 1), (''d2'', 1)]),
                        (''bird'', [(''d2'', 1)])],
     forward_index = [(''d1'', [(''cat'', 2), (''dog'', 1)]), (''d2'', [(''dog'', 1), (''bird'', 1)])],
     total_documents = 2, document_lengths = [(''d1'', 3), (''d2'', 2)], tf_idf_weights = [],
     idf_cache = []\<rparr>"
proof -
  have "add_document keep_text
          (add_document keep_text (empty_index :: real index_state) ''d1'' ''cat dog cat'')
          ''d2'' ''dog bird'' =
    \<lparr>inverted_index = [(''cat'', [(''d1'', 2)]), (''dog'', [(''d1'', 1), (''d2'', 1)]),
                        (''bird'', [(''d2'', 1)])],
     forward_index = [(''d1'', [(''cat'', 2), (''dog'', 1)]), (''d2'', [(''dog'', 1), (''bird'', 1)])],
     total_documents = 2, document_lengths = [(''d1'', 3), (''d2'', 2)], tf_idf_weights = [],
     idf_cache = []\<rparr>"
    by code_simp
  then show ?thesis by (simp add: run_def)
qed

lemma Counter_cat: "Counter (py_split (keep_text ''cat'')) = [(''cat'', 1)]"
  by code_simp

lemma query_vector_cat:
  "query_vector real_arithmetic keep_text
     (run real_arithmetic keep_text [Add ''d1'' ''cat dog cat'', Add ''d2'' ''dog bird'']) ''cat''
   = Inr [(''cat'', ln 2)]"
  unfolding query_vector_def Counter_cat two_documents
  by (simp add: inverse_document_frequency_def py_int_truediv_def py_log_def)

lemma document_vector_d1:
  "document_vector real_arithmetic
     (run real_arithmetic keep_text [Add ''d1'' ''cat dog cat'', Add ''d2'' ''dog bird'']) ''d1''
   = Inr [(''cat'', 2 / 3 * ln 2), (''dog'', 0)]"
  unfolding two_documents
  by (simp add: document_vector_def entries_def tf_idf_def calculate_tf_def
      inverse_document_frequency_def py_int_truediv_def py_log_def)

lemma document_vector_d2:
  "document_vector real_arithmetic
     (run real_arithmetic keep_text [Add ''d1'' ''cat dog cat'', Add ''d2'' ''dog bird'']) ''d2''
   = Inr [(''dog'', 0), (''bird'', 1 / 2 * ln 2)]"
  unfolding two_documents
  by (simp add: document_vector_def entries_def tf_idf_def calculate_tf_def
      inverse_document_frequency_def py_int_truediv_def py_log_def)

lemma similarity_cat:
  "similarity real_arithmetic keep_text
     (run real_arithmetic keep_text [Add ''d1'' ''cat dog cat'', Add ''d2'' ''dog bird''])
     ''cat'' ''d1'' = Inr 1"
  "similarity real_arithmetic keep_text
     (run real_arithmetic keep_text [Add ''d1'' ''cat dog cat'', Add ''d2'' ''dog bird''])
     ''cat'' ''d2'' = Inr 0"
proof -
  show "similarity real_arithmetic keep_text
     (run real_arithmetic keep_text [Add ''d1'' ''cat dog cat'', Add ''d2'' ''dog bird''])
     ''cat'' ''d1'' = Inr 1"
    unfolding similarity_def query_vector_cat document_vector_d1
    by (simp add: cosine_one_term_of_two)
  show "similarity real_arithmetic keep_text
     (run real_arithmetic keep_text [Add ''d1'' ''cat dog cat'', Add ''d2'' ''dog bird''])
     ''cat'' ''d2'' = Inr 0"
    unfolding similarity_def query_vector_cat document_vector_d2
    by (simp add: calculate_cosine_similarity_def)
qed

lemma ranking_cat:
  "ranking real_arithmetic keep_text
     (run real_arithmetic keep_text [Add ''d1'' ''cat dog cat'', Add ''d2'' ''dog bird'']) ''cat''
   = [(''d1'', 1)]"
proof -
  have f: "map fst (forward_index
      (run real_arithmetic keep_text [Add ''d1'' ''cat dog cat'', Add ''d2'' ''dog bird'']))
    = [''d1'', ''d2'']"
    unfolding two_documents by simp
  show ?thesis
    unfolding ranking_def f
    by (simp add: List.map_filter_simps positive_hit_def similarity_cat)
qed

text \<open>
  Claim C5, as amended. \<open>search\<close> is called in a state reached from the empty index, with
  any arithmetic and any normaliser.

  \<^item> It returns the empty list, and leaves the state as it is, when the query is empty,
    when the index has no document, and when the query is blank and the normaliser makes
    blank text empty.
  \<^item> For a query that is not empty, whenever it returns, the list is the ranking (the
    indexed documents whose cosine similarity to the query vector is greater than 0, each
    with that similarity, in the order of the forward index), sorted by score with the
    largest first, and cut by the slice \<open>[:top_k]\<close>. The list is sorted by score
    descending, and it has at most \<open>top_k\<close> entries when \<open>top_k\<close> is not negative; a
    negative \<open>top_k\<close> drops entries from the end instead.
  \<^item> It returns when the similarity of every indexed document to the query is computed
    with no arithmetic error.
  \<^item> The query vector and the document vectors that the program computes, with its
    cache, are the ones computed from the index alone.
\<close>

theorem index_search:
  "(query = [] \<or> total_documents (run ar pp calls) = 0 \<or> (normaliser pp \<and> strip query = [])
      \<longrightarrow> search ar pp (run ar pp calls) query top_k = Inr ([], run ar pp calls)) \<and>
   (query \<noteq> [] \<longrightarrow>
      (\<forall>hits s'. search ar pp (run ar pp calls) query top_k = Inr (hits, s') \<longrightarrow>
         hits = slice_to top_k (sort_by_score (ranking ar pp (run ar pp calls) query)) \<and>
         sorted_wrt (\<lambda>a b. snd a \<ge> snd b) hits \<and>
         (0 \<le> top_k \<longrightarrow> int (length hits) \<le> top_k))) \<and>
   ((\<forall>d \<in> keys (forward_index (run ar pp calls)).
        \<exists>x. similarity ar pp (run ar pp calls) query d = Inr x)
      \<longrightarrow> (\<exists>hits s'. search ar pp (run ar pp calls) query top_k = Inr (hits, s'))) \<and>
   computes ar (run ar pp calls) (get_query_vector ar pp (run ar pp calls) query)
     (query_vector ar pp (run ar pp calls) query) \<and>
   (\<forall>d. computes ar (run ar pp calls) (get_document_vector ar (run ar pp calls) d)
          (document_vector ar (run ar pp calls) d))"
proof -
  let ?s = "run ar pp calls"
  have v: "valid ar ?s" by (rule valid_run)
  have r: "refreshed ar ?s ?s" by (rule refreshed_refl[OF v])
  have a: "query = [] \<or> total_documents ?s = 0 \<or> (normaliser pp \<and> strip query = [])
      \<longrightarrow> search ar pp ?s query top_k = Inr ([], ?s)"
    using search_nothing[of query ?s pp ar top_k] by blast
  have b: "query \<noteq> [] \<longrightarrow>
      (\<forall>hits s'. search ar pp ?s query top_k = Inr (hits, s') \<longrightarrow>
         hits = slice_to top_k (sort_by_score (ranking ar pp ?s query)) \<and>
         sorted_wrt (\<lambda>a b. snd a \<ge> snd b) hits \<and>
         (0 \<le> top_k \<longrightarrow> int (length hits) \<le> top_k))"
  proof (intro impI allI)
    fix hits s'
    assume "query \<noteq> []" and "search ar pp ?s query top_k = Inr (hits, s')"
    then have h: "hits = slice_to top_k (sort_by_score (ranking ar pp ?s query))"
      by (rule search_result[OF v])
    show "hits = slice_to top_k (sort_by_score (ranking ar pp ?s query)) \<and>
         sorted_wrt (\<lambda>a b. snd a \<ge> snd b) hits \<and>
         (0 \<le> top_k \<longrightarrow> int (length hits) \<le> top_k)"
      unfolding h
      by (intro conjI impI refl sorted_slice_to sorted_sort_by_score length_slice_to)
  qed
  have c: "(\<forall>d \<in> keys (forward_index ?s). \<exists>x. similarity ar pp ?s query d = Inr x)
      \<longrightarrow> (\<exists>hits s'. search ar pp ?s query top_k = Inr (hits, s'))"
    using search_returns[OF v, of pp query top_k] by blast
  have d: "computes ar ?s (get_query_vector ar pp ?s query) (query_vector ar pp ?s query)"
    by (rule get_query_vector_computes[OF r])
  have e: "\<forall>d. computes ar ?s (get_document_vector ar ?s d) (document_vector ar ?s d)"
    by (intro allI get_document_vector_computes[OF r])
  from a b c d e show ?thesis by (intro conjI)
qed

text \<open>
  The scenario of the specification: \<open>d1\<close> is ``cat dog cat'', \<open>d2\<close> is ``dog bird''. The
  query ``cat'' returns \<open>d1\<close> alone, with a score above 0; a blank query returns nothing.
\<close>

theorem index_search_witness:
  "normaliser keep_text \<and> strip ''  '' = [] \<and>
   search real_arithmetic keep_text
     (run real_arithmetic keep_text [Add ''d1'' ''cat dog cat'', Add ''d2'' ''dog bird''])
     ''  '' 10
   = Inr ([], run real_arithmetic keep_text [Add ''d1'' ''cat dog cat'', Add ''d2'' ''dog bird'']) \<and>
   (\<exists>x s'. search real_arithmetic keep_text
      (run real_arithmetic keep_text [Add ''d1'' ''cat dog cat'', Add ''d2'' ''dog bird''])
      ''cat'' 10 = Inr ([(''d1'', x)], s') \<and> 0 < x)"
proof -
  let ?s = "run real_arithmetic keep_text [Add ''d1'' ''cat dog cat'', Add ''d2'' ''dog bird'']"
  have b: "strip ''  '' = []" by (simp add: strip_def is_space_def)
  have k: "keys (forward_index ?s) = {''d1'', ''d2''}"
    unfolding two_documents by (simp add: keys_def)
  have sims: "\<forall>d \<in> keys (forward_index ?s).
      \<exists>x. similarity real_arithmetic keep_text ?s ''cat'' d = Inr x"
    unfolding k by (simp add: similarity_cat)
  have s: "slice_to 10 (sort_by_score [(''d1'', 1::real)]) = [(''d1'', 1)]"
    by (simp add: slice_to_def sort_by_score_def)
  note t = index_search[of "''cat''" real_arithmetic keep_text
      "[Add ''d1'' ''cat dog cat'', Add ''d2'' ''dog bird'']" 10]
  from t[THEN conjunct2, THEN conjunct2, THEN conjunct1] sims
  obtain hits s' where
    r: "search real_arithmetic keep_text ?s ''cat'' 10 = Inr (hits, s')"
    by blast
  from t[THEN conjunct2, THEN conjunct1] r
  have h: "hits = slice_to 10 (sort_by_score (ranking real_arithmetic keep_text ?s ''cat''))"
    by blast
  from h have "hits = [(''d1'', 1)]" unfolding ranking_cat s .
  with r have 1: "\<exists>x s'. search real_arithmetic keep_text ?s ''cat'' 10 = Inr ([(''d1'', x)], s')
      \<and> 0 < x"
    by (intro exI[of _ "1::real"] exI[of _ s']) simp
  note u = index_search[of "''  ''" real_arithmetic keep_text
      "[Add ''d1'' ''cat dog cat'', Add ''d2'' ''dog bird'']" 10]
  from u[THEN conjunct1] normaliser_keep_text b
  have 2: "search real_arithmetic keep_text ?s ''  '' 10 = Inr ([], ?s)"
    by blast
  from normaliser_keep_text b 2 1 show ?thesis by (intro conjI)
qed

text \<open>
  A negative \<open>top_k\<close>: three documents score above 0 for the query ``cat'', and
  \<open>search\<close> with \<open>top_k = -1\<close> returns two of them, which is more than \<open>top_k\<close>.
\<close>

lemma four_documents:
  "run real_arithmetic keep_text
     [Add ''d1'' ''cat'', Add ''d2'' ''cat'', Add ''d3'' ''cat'', Add ''d4'' ''dog''] =
    \<lparr>inverted_index = [(''cat'', [(''d1'', 1), (''d2'', 1), (''d3'', 1)]), (''dog'', [(''d4'', 1)])],
     forward_index = [(''d1'', [(''cat'', 1)]), (''d2'', [(''cat'', 1)]), (''d3'', [(''cat'', 1)]),
                      (''d4'', [(''dog'', 1)])],
     total_documents = 4,
     document_lengths = [(''d1'', 1), (''d2'', 1), (''d3'', 1), (''d4'', 1)],
     tf_idf_weights = [], idf_cache = []\<rparr>"
proof -
  have "add_document keep_text (add_document keep_text (add_document keep_text
          (add_document keep_text (empty_index :: real index_state) ''d1'' ''cat'')
          ''d2'' ''cat'') ''d3'' ''cat'') ''d4'' ''dog'' =
    \<lparr>inverted_index = [(''cat'', [(''d1'', 1), (''d2'', 1), (''d3'', 1)]), (''dog'', [(''d4'', 1)])],
     forward_index = [(''d1'', [(''cat'', 1)]), (''d2'', [(''cat'', 1)]), (''d3'', [(''cat'', 1)]),
                      (''d4'', [(''dog'', 1)])],
     total_documents = 4,
     document_lengths = [(''d1'', 1), (''d2'', 1), (''d3'', 1), (''d4'', 1)],
     tf_idf_weights = [], idf_cache = []\<rparr>"
    by code_simp
  then show ?thesis by (simp add: run_def)
qed

lemma similarity_four_documents:
  "similarity real_arithmetic keep_text
     (run real_arithmetic keep_text
        [Add ''d1'' ''cat'', Add ''d2'' ''cat'', Add ''d3'' ''cat'', Add ''d4'' ''dog''])
     ''cat'' d = Inr (if d \<in> {''d1'', ''d2'', ''d3''} then 1 else 0)"
proof -
  let ?s = "run real_arithmetic keep_text
        [Add ''d1'' ''cat'', Add ''d2'' ''cat'', Add ''d3'' ''cat'', Add ''d4'' ''dog'']"
  have pos: "0 < ln (4 / 3 :: real)" by simp
  have q: "query_vector real_arithmetic keep_text ?s ''cat'' = Inr [(''cat'', ln (4 / 3))]"
    unfolding query_vector_def Counter_cat four_documents
    by (simp add: inverse_document_frequency_def py_int_truediv_def py_log_def)
  have dv: "document_vector real_arithmetic ?s d =
      Inr (if d \<in> {''d1'', ''d2'', ''d3''} then [(''cat'', ln (4 / 3))]
           else if d = ''d4'' then [(''dog'', ln 4)] else [])"
    unfolding four_documents
    by (simp add: document_vector_def entries_def tf_idf_def calculate_tf_def
        inverse_document_frequency_def py_int_truediv_def py_log_def)
  have c0: "calculate_cosine_similarity real_arithmetic [(''cat'', ln (4 / 3))] [(''dog'', ln 4)]
      = Inr 0"
    "calculate_cosine_similarity real_arithmetic [(''cat'', ln (4 / 3))] [] = Inr 0"
    by (simp_all add: calculate_cosine_similarity_def)
  show ?thesis
    unfolding similarity_def q dv
    using cosine_one_term[OF pos pos, of "''cat''"] c0 by simp
qed

lemma ranking_four_documents:
  "ranking real_arithmetic keep_text
     (run real_arithmetic keep_text
        [Add ''d1'' ''cat'', Add ''d2'' ''cat'', Add ''d3'' ''cat'', Add ''d4'' ''dog''])
     ''cat'' = [(''d1'', 1), (''d2'', 1), (''d3'', 1)]"
proof -
  have f: "map fst (forward_index (run real_arithmetic keep_text
        [Add ''d1'' ''cat'', Add ''d2'' ''cat'', Add ''d3'' ''cat'', Add ''d4'' ''dog'']))
    = [''d1'', ''d2'', ''d3'', ''d4'']"
    unfolding four_documents by simp
  show ?thesis
    unfolding ranking_def f
    by (simp add: List.map_filter_simps positive_hit_def similarity_four_documents)
qed

lemma search_four_documents:
  "\<exists>s'. search real_arithmetic keep_text
     (run real_arithmetic keep_text
        [Add ''d1'' ''cat'', Add ''d2'' ''cat'', Add ''d3'' ''cat'', Add ''d4'' ''dog''])
     ''cat'' top_k = Inr (slice_to top_k [(''d1'', 1), (''d2'', 1), (''d3'', 1)], s')"
proof -
  let ?s = "run real_arithmetic keep_text
        [Add ''d1'' ''cat'', Add ''d2'' ''cat'', Add ''d3'' ''cat'', Add ''d4'' ''dog'']"
  have v: "valid real_arithmetic ?s" by (rule valid_run)
  have "\<exists>hits s'. search real_arithmetic keep_text ?s ''cat'' top_k = Inr (hits, s')"
    by (rule search_returns[OF v]) (simp add: similarity_four_documents)
  then obtain hits s' where
    r: "search real_arithmetic keep_text ?s ''cat'' top_k = Inr (hits, s')" by blast
  have "hits = slice_to top_k (sort_by_score (ranking real_arithmetic keep_text ?s ''cat''))"
    by (rule search_result[OF v _ r]) simp
  also have "sort_by_score (ranking real_arithmetic keep_text ?s ''cat'') =
      [(''d1'', 1), (''d2'', 1), (''d3'', 1)]"
    unfolding ranking_four_documents by (simp add: sort_by_score_def)
  finally show ?thesis using r by blast
qed

theorem index_search_negative_top_k:
  "map_sum id (map fst \<circ> fst)
     (search real_arithmetic keep_text
        (run real_arithmetic keep_text
           [Add ''d1'' ''cat'', Add ''d2'' ''cat'', Add ''d3'' ''cat'', Add ''d4'' ''dog''])
        ''cat'' (- 1))
   = Inr [''d1'', ''d2''] \<and>
   \<not> int (length [''d1'', ''d2'']) \<le> - 1"
proof -
  from search_four_documents[of "- 1"] obtain s' where
    "search real_arithmetic keep_text
        (run real_arithmetic keep_text
           [Add ''d1'' ''cat'', Add ''d2'' ''cat'', Add ''d3'' ''cat'', Add ''d4'' ''dog''])
        ''cat'' (- 1) = Inr (slice_to (- 1) [(''d1'', 1), (''d2'', 1), (''d3'', 1)], s')"
    by blast
  then show ?thesis by (simp add: slice_to_def)
qed

text \<open>
  \<open>search\<close> can raise. The document \<open>d1\<close> is added again with a text that the normaliser
  turns into a space: \<open>add_document\<close> keeps the posting of ``cat'' and stores the length
  0, and the term frequency of ``cat'' in \<open>d1\<close> divides by it.
\<close>

lemma normaliser_marks_to_spaces: "normaliser marks_to_spaces"
  by (simp add: normaliser_def marks_to_spaces_def)

lemma search_after_readd:
  "search real_arithmetic marks_to_spaces
     (run real_arithmetic marks_to_spaces [Add ''d1'' ''cat'', Add ''d1'' ''!'']) ''cat'' 10
   = Inl ZeroDivisionError"
proof -
  have s: "run real_arithmetic marks_to_spaces [Add ''d1'' ''cat'', Add ''d1'' ''!''] =
    \<lparr>inverted_index = [(''cat'', [(''d1'', 1)])], forward_index = [(''d1'', [(''cat'', 1)])],
     total_documents = 1, document_lengths = [(''d1'', 0)], tf_idf_weights = [],
     idf_cache = []\<rparr>"
  proof -
    have "add_document marks_to_spaces
            (add_document marks_to_spaces (empty_index :: real index_state) ''d1'' ''cat'')
            ''d1'' ''!'' =
      \<lparr>inverted_index = [(''cat'', [(''d1'', 1)])], forward_index = [(''d1'', [(''cat'', 1)])],
       total_documents = 1, document_lengths = [(''d1'', 0)], tf_idf_weights = [],
       idf_cache = []\<rparr>"
      by code_simp
    then show ?thesis by (simp add: run_def)
  qed
  have c: "Counter (py_split (marks_to_spaces ''cat'')) = [(''cat'', 1)]"
    "marks_to_spaces ''cat'' \<noteq> []"
    by code_simp+
  show ?thesis
    unfolding s
    by (simp add: search_def get_query_vector_def c calculate_idf_def py_int_truediv_def
        py_log_def get_document_vector_def calculate_tf_idf_def calculate_tf_def)
qed

section \<open>Searching through the orchestrator\<close>

lemma collect_results_eq:
  "collect_results docs kws top_k min_score hits results =
     results @ take (nat (max 1 (top_k - int (length results))))
                 (resolve_hits docs kws min_score hits)"
proof (induction hits arbitrary: results)
  case Nil
  then show ?case by (simp add: resolve_hits_def List.map_filter_simps)
next
  case (Cons hit hits)
  obtain d sc where hit: "hit = (d, sc)" by (cases hit)
  show ?case
  proof (cases "resolve_hit docs kws min_score hit")
    case None
    then have "collect_results docs kws top_k min_score (hit # hits) results
        = collect_results docs kws top_k min_score hits results"
      using hit by (auto simp: resolve_hit_def get_document_def split: if_splits)
    with None Cons show ?thesis
      by (simp add: resolve_hits_def List.map_filter_simps)
  next
    case (Some r)
    then have keep: "\<not> sc < min_score" and doc: "map_of docs d \<noteq> None"
      using hit by (auto simp: resolve_hit_def split: if_splits)
    then obtain doc where doc: "map_of docs d = Some doc" by blast
    with Some hit keep have r: "r = \<lparr>result_document = doc, score = sc,
        matched_keywords = find_matched_keywords (processed_content doc) kws\<rparr>"
      by (simp add: resolve_hit_def)
    have res: "resolve_hits docs kws min_score (hit # hits) = r # resolve_hits docs kws min_score hits"
      using Some by (simp add: resolve_hits_def List.map_filter_simps)
    show ?thesis
    proof (cases "top_k \<le> int (length results) + 1")
      case True
      then have "collect_results docs kws top_k min_score (hit # hits) results = results @ [r]"
        using hit keep doc r by (simp add: get_document_def Let_def)
      moreover from True have "nat (max 1 (top_k - int (length results))) = 1"
        by (auto simp: max_def)
      ultimately show ?thesis by (simp add: res)
    next
      case False
      define n where "n = nat (max 1 (top_k - int (length (results @ [r]))))"
      from False have eq: "nat (max 1 (top_k - int (length results))) = Suc n"
        by (auto simp: max_def n_def)
      from False have "collect_results docs kws top_k min_score (hit # hits) results
          = collect_results docs kws top_k min_score hits (results @ [r])"
        using hit keep doc r by (simp add: get_document_def Let_def)
      also have "\<dots> = (results @ [r]) @ take n (resolve_hits docs kws min_score hits)"
        unfolding n_def by (rule Cons)
      also have "\<dots> = results @ take (Suc n) (r # resolve_hits docs kws min_score hits)"
        by simp
      finally show ?thesis by (simp only: res eq)
    qed
  qed
qed

lemma engine_search_eq:
  "strip query \<noteq> [] \<Longrightarrow>
   engine_search ar pp e query top_k min_score =
     (case search ar pp (index e) query (2 * top_k) of
        Inl err \<Rightarrow> Inl err
      | Inr (hits, idx) \<Rightarrow>
          Inr (take (nat (max 1 top_k))
                 (resolve_hits (documents e)
                    (if pp query \<noteq> [] then py_split (pp query) else []) min_score hits),
               e\<lparr>index := idx\<rparr>))"
  by (simp add: engine_search_def collect_results_eq Let_def mult.commute
      split: sum.splits prod.splits)

text \<open>What \<open>search\<close> returns is sorted and cut, in every state of the index.\<close>

lemma search_sorted:
  "search ar pp s query top_k = Inr (hits, s') \<Longrightarrow> sorted_wrt (\<lambda>a b. snd a \<ge> snd b) hits"
  by (auto simp: search_def sorted_slice_to sorted_sort_by_score
      split: if_splits sum.splits prod.splits)

lemma search_length:
  "search ar pp s query top_k = Inr (hits, s') \<Longrightarrow> 0 \<le> top_k \<Longrightarrow> int (length hits) \<le> top_k"
  by (auto simp: search_def length_slice_to split: if_splits sum.splits prod.splits)

lemma resolve_hits_Cons:
  "resolve_hits docs kws min_score (hit # hits) =
     (case resolve_hit docs kws min_score hit of
        None \<Rightarrow> resolve_hits docs kws min_score hits
      | Some r \<Rightarrow> r # resolve_hits docs kws min_score hits)"
  by (simp add: resolve_hits_def List.map_filter_simps split: option.splits)

lemma resolve_hit_Some:
  "resolve_hit docs kws min_score hit = Some r \<Longrightarrow>
   score r = snd hit \<and> \<not> snd hit < min_score \<and> map_of docs (fst hit) = Some (result_document r)"
  by (auto simp: resolve_hit_def split: if_splits)

lemma resolve_hits_member:
  "r \<in> set (resolve_hits docs kws min_score hits) \<Longrightarrow>
   \<exists>hit \<in> set hits. score r = snd hit \<and> \<not> snd hit < min_score \<and>
      map_of docs (fst hit) = Some (result_document r)"
proof (induction hits)
  case Nil
  then show ?case by (simp add: resolve_hits_def List.map_filter_simps)
next
  case (Cons hit hits)
  show ?case
  proof (cases "resolve_hit docs kws min_score hit")
    case None
    with Cons show ?thesis by (simp add: resolve_hits_Cons)
  next
    case (Some r')
    with Cons.prems have "r = r' \<or> r \<in> set (resolve_hits docs kws min_score hits)"
      by (simp add: resolve_hits_Cons)
    then show ?thesis
    proof
      assume "r = r'"
      with resolve_hit_Some[OF Some] show ?thesis by simp
    next
      assume "r \<in> set (resolve_hits docs kws min_score hits)"
      from Cons.IH[OF this] show ?thesis by auto
    qed
  qed
qed

lemma sorted_resolve_hits:
  "sorted_wrt (\<lambda>a b. snd a \<ge> snd b) hits \<Longrightarrow>
   sorted_wrt (\<lambda>a b. score a \<ge> score b) (resolve_hits docs kws min_score hits)"
proof (induction hits)
  case Nil
  then show ?case by (simp add: resolve_hits_def List.map_filter_simps)
next
  case (Cons hit hits)
  then have tl: "sorted_wrt (\<lambda>a b. score a \<ge> score b) (resolve_hits docs kws min_score hits)"
    and hd: "\<forall>h \<in> set hits. snd h \<le> snd hit"
    by simp_all
  show ?case
  proof (cases "resolve_hit docs kws min_score hit")
    case None
    with tl show ?thesis by (simp add: resolve_hits_Cons)
  next
    case (Some r)
    then have "score r = snd hit"
      by (auto simp: resolve_hit_def split: if_splits)
    with hd have "\<forall>r' \<in> set (resolve_hits docs kws min_score hits). score r' \<le> score r"
      using resolve_hits_member[of _ docs kws min_score hits] by fastforce
    with Some tl show ?thesis by (simp add: resolve_hits_Cons)
  qed
qed

lemma engine_search_blank:
  "strip query = [] \<Longrightarrow> engine_search ar pp e query top_k min_score = Inr ([], e)"
  by (simp add: engine_search_def)

lemma engine_search_hits:
  assumes "strip query \<noteq> []"
    and "engine_search ar pp e query top_k min_score = Inr (results, e')"
  obtains hits idx where
    "search ar pp (index e) query (2 * top_k) = Inr (hits, idx)"
    "results = take (nat (max 1 top_k))
       (resolve_hits (documents e) (if pp query \<noteq> [] then py_split (pp query) else [])
          min_score hits)"
    "e' = e\<lparr>index := idx\<rparr>"
  using assms(2) unfolding engine_search_eq[OF assms(1)]
  by (auto split: sum.splits prod.splits)

lemma engine_search_length:
  assumes "engine_search ar pp e query top_k min_score = Inr (results, e')" and "0 \<le> top_k"
  shows "int (length results) \<le> top_k"
proof (cases "strip query = []")
  case True
  with assms show ?thesis by (simp add: engine_search_blank)
next
  case False
  from engine_search_hits[OF False assms(1)] obtain hits idx where
    s: "search ar pp (index e) query (2 * top_k) = Inr (hits, idx)"
    and r: "results = take (nat (max 1 top_k))
       (resolve_hits (documents e) (if pp query \<noteq> [] then py_split (pp query) else [])
          min_score hits)"
    by blast
  show ?thesis
  proof (cases "top_k = 0")
    case True
    with search_length[OF s] have "hits = []" by simp
    with r True show ?thesis by (simp add: resolve_hits_def List.map_filter_simps)
  next
    case False
    with assms(2) have "max 1 top_k = top_k" by simp
    with r assms(2) show ?thesis by simp
  qed
qed

lemma engine_search_sorted:
  assumes "engine_search ar pp e query top_k min_score = Inr (results, e')"
  shows "sorted_wrt (\<lambda>a b. score a \<ge> score b) results"
proof (cases "strip query = []")
  case True
  with assms show ?thesis by (simp add: engine_search_blank)
next
  case False
  from engine_search_hits[OF False assms] obtain hits idx where
    s: "search ar pp (index e) query (2 * top_k) = Inr (hits, idx)"
    and r: "results = take (nat (max 1 top_k))
       (resolve_hits (documents e) (if pp query \<noteq> [] then py_split (pp query) else [])
          min_score hits)"
    by blast
  show ?thesis
    unfolding r by (intro sorted_wrt_take sorted_resolve_hits search_sorted[OF s])
qed

lemma engine_search_member:
  assumes "engine_search ar pp e query top_k min_score = Inr (results, e')"
    and "r \<in> set results"
  shows "\<not> score r < min_score \<and>
         (\<exists>doc_id. get_document (documents e) doc_id = Some (result_document r))"
proof (cases "strip query = []")
  case True
  with assms show ?thesis by (simp add: engine_search_blank)
next
  case False
  from engine_search_hits[OF False assms(1)] obtain hits idx where
    "results = take (nat (max 1 top_k))
       (resolve_hits (documents e) (if pp query \<noteq> [] then py_split (pp query) else [])
          min_score hits)"
    by blast
  with assms(2) have "r \<in> set (resolve_hits (documents e)
      (if pp query \<noteq> [] then py_split (pp query) else []) min_score hits)"
    by (auto dest: in_set_takeD)
  from resolve_hits_member[OF this] show ?thesis
    by (auto simp: get_document_def)
qed

text \<open>
  Claim C6, as amended. The orchestrator is called in any state, with any arithmetic and
  any normaliser.

  \<^item> A blank query returns no result and leaves the state as it is.
  \<^item> Otherwise the orchestrator asks the index for \<open>2 * top_k\<close> hits. When the index
    raises, so does the orchestrator. When the index returns its hits, they are gone
    through in their order: a hit below \<open>min_score\<close> is dropped, a hit whose document the
    store does not have is skipped, and the loop ends after the result that makes
    \<open>top_k\<close> of them; so the results are the first \<open>max 1 top_k\<close> hits that pass.
  \<^item> The results are in score order, the largest first; none has a score below
    \<open>min_score\<close>, and each holds a document of the store.
  \<^item> There are at most \<open>top_k\<close> results when \<open>top_k\<close> is not negative.
\<close>

theorem engine_search_result:
  "(strip query = [] \<longrightarrow> engine_search ar pp e query top_k min_score = Inr ([], e)) \<and>
   (strip query \<noteq> [] \<longrightarrow>
      engine_search ar pp e query top_k min_score =
        (case search ar pp (index e) query (2 * top_k) of
           Inl err \<Rightarrow> Inl err
         | Inr (hits, idx) \<Rightarrow>
             Inr (take (nat (max 1 top_k))
                    (resolve_hits (documents e)
                       (if pp query \<noteq> [] then py_split (pp query) else []) min_score hits),
                  e\<lparr>index := idx\<rparr>))) \<and>
   (\<forall>results e'. engine_search ar pp e query top_k min_score = Inr (results, e') \<longrightarrow>
      sorted_wrt (\<lambda>a b. score a \<ge> score b) results \<and>
      (\<forall>r \<in> set results. \<not> score r < min_score \<and>
         (\<exists>doc_id. get_document (documents e) doc_id = Some (result_document r))) \<and>
      (0 \<le> top_k \<longrightarrow> int (length results) \<le> top_k))"
proof (intro conjI impI allI ballI)
  show "strip query = [] \<Longrightarrow> engine_search ar pp e query top_k min_score = Inr ([], e)"
    by (rule engine_search_blank)
  show "strip query \<noteq> [] \<Longrightarrow>
      engine_search ar pp e query top_k min_score =
        (case search ar pp (index e) query (2 * top_k) of
           Inl err \<Rightarrow> Inl err
         | Inr (hits, idx) \<Rightarrow>
             Inr (take (nat (max 1 top_k))
                    (resolve_hits (documents e)
                       (if pp query \<noteq> [] then py_split (pp query) else []) min_score hits),
                  e\<lparr>index := idx\<rparr>))"
    by (rule engine_search_eq)
next
  fix results e'
  assume r: "engine_search ar pp e query top_k min_score = Inr (results, e')"
  show "sorted_wrt (\<lambda>a b. score a \<ge> score b) results"
    by (rule engine_search_sorted[OF r])
  show "int (length results) \<le> top_k" if "0 \<le> top_k"
    by (rule engine_search_length[OF r that])
  fix x assume x: "x \<in> set results"
  from engine_search_member[OF r x]
  show "\<not> score x < min_score"
    and "\<exists>doc_id. get_document (documents e) doc_id = Some (result_document x)"
    by simp_all
qed

text \<open>
  The scenario of the specification again, with \<open>d1\<close> in the store: the query ``cat''
  returns \<open>d1\<close> with the keyword ``cat'' and a score that is not below \<open>min_score\<close>; a
  blank query returns nothing.
\<close>

lemma search_two_documents:
  "\<exists>idx. search real_arithmetic keep_text
     (run real_arithmetic keep_text [Add ''d1'' ''cat dog cat'', Add ''d2'' ''dog bird''])
     ''cat'' top_k = Inr (slice_to top_k [(''d1'', 1)], idx)"
proof -
  let ?s = "run real_arithmetic keep_text [Add ''d1'' ''cat dog cat'', Add ''d2'' ''dog bird'']"
  have v: "valid real_arithmetic ?s" by (rule valid_run)
  have k: "keys (forward_index ?s) = {''d1'', ''d2''}"
    unfolding two_documents by (simp add: keys_def)
  have "\<exists>hits s'. search real_arithmetic keep_text ?s ''cat'' top_k = Inr (hits, s')"
    by (rule search_returns[OF v]) (auto simp: k similarity_cat)
  then obtain hits s' where
    r: "search real_arithmetic keep_text ?s ''cat'' top_k = Inr (hits, s')" by blast
  have "hits = slice_to top_k (sort_by_score (ranking real_arithmetic keep_text ?s ''cat''))"
    by (rule search_result[OF v _ r]) simp
  also have "sort_by_score (ranking real_arithmetic keep_text ?s ''cat'') = [(''d1'', 1)]"
    unfolding ranking_cat by (simp add: sort_by_score_def)
  finally show ?thesis using r by blast
qed

lemma resolve_cat:
  "resolve_hits
     [(''d1'', \<lparr>document_id = ''d1'', title = ''Cats'', content = ''cat dog cat'',
               file_path = None, metadata = [], created_at = ''2024'',
               processed_content = ''cat dog cat''\<rparr>)]
     (if keep_text ''cat'' \<noteq> [] then py_split (keep_text ''cat'') else []) (1 / 100)
     [(''d1'', 1 :: real)]
   = [\<lparr>result_document = \<lparr>document_id = ''d1'', title = ''Cats'', content = ''cat dog cat'',
               file_path = None, metadata = [], created_at = ''2024'',
               processed_content = ''cat dog cat''\<rparr>,
       score = 1, matched_keywords = [''cat'']\<rparr>]"
proof -
  have k: "(if keep_text ''cat'' \<noteq> [] then py_split (keep_text ''cat'') else []) = [''cat'']"
    by code_simp
  have w: "py_split ''cat dog cat'' = [''cat'', ''dog'', ''cat'']"
    by code_simp
  show ?thesis
    unfolding k
    by (simp add: resolve_hits_def List.map_filter_simps resolve_hit_def
        find_matched_keywords_def w)
qed

theorem engine_search_result_witness:
  "strip ''cat'' \<noteq> [] \<and> strip ''  '' = [] \<and>
   engine_search real_arithmetic keep_text
      \<lparr>documents =
         [(''d1'', \<lparr>document_id = ''d1'', title = ''Cats'', content = ''cat dog cat'',
               file_path = None, metadata = [], created_at = ''2024'',
               processed_content = ''cat dog cat''\<rparr>)],
       index = run real_arithmetic keep_text
                 [Add ''d1'' ''cat dog cat'', Add ''d2'' ''dog bird'']\<rparr>
      ''  '' 10 (1 / 100)
    = Inr ([], \<lparr>documents =
         [(''d1'', \<lparr>document_id = ''d1'', title = ''Cats'', content = ''cat dog cat'',
               file_path = None, metadata = [], created_at = ''2024'',
               processed_content = ''cat dog cat''\<rparr>)],
       index = run real_arithmetic keep_text
                 [Add ''d1'' ''cat dog cat'', Add ''d2'' ''dog bird'']\<rparr>) \<and>
   (\<exists>x e'. engine_search real_arithmetic keep_text
      \<lparr>documents =
         [(''d1'', \<lparr>document_id = ''d1'', title = ''Cats'', content = ''cat dog cat'',
               file_path = None, metadata = [], created_at = ''2024'',
               processed_content = ''cat dog cat''\<rparr>)],
       index = run real_arithmetic keep_text
                 [Add ''d1'' ''cat dog cat'', Add ''d2'' ''dog bird'']\<rparr>
      ''cat'' 10 (1 / 100)
    = Inr ([\<lparr>result_document = \<lparr>document_id = ''d1'', title = ''Cats'', content = ''cat dog cat'',
               file_path = None, metadata = [], created_at = ''2024'',
               processed_content = ''cat dog cat''\<rparr>,
             score = x, matched_keywords = [''cat'']\<rparr>], e') \<and> 1 / 100 \<le> x)"
proof -
  let ?e = "\<lparr>documents =
         [(''d1'', \<lparr>document_id = ''d1'', title = ''Cats'', content = ''cat dog cat'',
               file_path = None, metadata = [], created_at = ''2024'',
               processed_content = ''cat dog cat''\<rparr>)],
       index = run real_arithmetic keep_text
                 [Add ''d1'' ''cat dog cat'', Add ''d2'' ''dog bird'']\<rparr>"
  have b: "strip ''  '' = []" by (simp add: strip_def is_space_def)
  have c: "strip ''cat'' \<noteq> []" by (simp add: strip_def is_space_def)
  from search_two_documents[of "2 * 10"] obtain idx where
    idx: "search real_arithmetic keep_text (index ?e) ''cat'' (2 * 10) = Inr ([(''d1'', 1)], idx)"
    by (auto simp: slice_to_def)
  note t = engine_search_result[of "''cat''" real_arithmetic keep_text ?e 10 "1 / 100"]
  from t[THEN conjunct2, THEN conjunct1] c
  have "engine_search real_arithmetic keep_text ?e ''cat'' 10 (1 / 100) =
      (case search real_arithmetic keep_text (index ?e) ''cat'' (2 * 10) of
         Inl err \<Rightarrow> Inl err
       | Inr (hits, idx) \<Rightarrow>
           Inr (take (nat (max 1 10))
                  (resolve_hits (documents ?e)
                     (if keep_text ''cat'' \<noteq> [] then py_split (keep_text ''cat'') else [])
                     (1 / 100) hits),
                ?e\<lparr>index := idx\<rparr>))"
    by (rule mp)
  also have "\<dots> = Inr ([\<lparr>result_document = \<lparr>document_id = ''d1'', title = ''Cats'',
               content = ''cat dog cat'',
               file_path = None, metadata = [], created_at = ''2024'',
               processed_content = ''cat dog cat''\<rparr>,
             score = 1, matched_keywords = [''cat'']\<rparr>], ?e\<lparr>index := idx\<rparr>)"
    unfolding idx by (simp add: resolve_cat)
  finally have 1: "\<exists>x e'. engine_search real_arithmetic keep_text ?e ''cat'' 10 (1 / 100)
    = Inr ([\<lparr>result_document = \<lparr>document_id = ''d1'', title = ''Cats'', content = ''cat dog cat'',
               file_path = None, metadata = [], created_at = ''2024'',
               processed_content = ''cat dog cat''\<rparr>,
             score = x, matched_keywords = [''cat'']\<rparr>], e') \<and> 1 / 100 \<le> x"
    by (intro exI[of _ "1::real"] exI[of _ "?e\<lparr>index := idx\<rparr>"]) simp
  note u = engine_search_result[of "''  ''" real_arithmetic keep_text ?e 10 "1 / 100"]
  from u[THEN conjunct1] b
  have 2: "engine_search real_arithmetic keep_text ?e ''  '' 10 (1 / 100) = Inr ([], ?e)"
    by (rule mp)
  from c b 2 1 show ?thesis by (intro conjI)
qed

text \<open>
  A negative \<open>top_k\<close>: the index is asked for \<open>-2\<close> hits and returns one of the three
  documents that score above 0, and the orchestrator returns it, which is more than
  \<open>top_k = -1\<close> results.
\<close>

theorem engine_search_negative_top_k:
  "map_sum id (map (document_id \<circ> result_document) \<circ> fst)
     (engine_search real_arithmetic keep_text
        \<lparr>documents =
           [(''d1'', \<lparr>document_id = ''d1'', title = ''Cats'', content = ''cat'',
                 file_path = None, metadata = [], created_at = ''2024'',
                 processed_content = ''cat''\<rparr>)],
         index = run real_arithmetic keep_text
                   [Add ''d1'' ''cat'', Add ''d2'' ''cat'', Add ''d3'' ''cat'', Add ''d4'' ''dog'']\<rparr>
        ''cat'' (- 1) (1 / 100))
   = Inr [''d1''] \<and>
   \<not> int (length [''d1'']) \<le> - 1"
proof -
  let ?e = "\<lparr>documents =
           [(''d1'', \<lparr>document_id = ''d1'', title = ''Cats'', content = ''cat'',
                 file_path = None, metadata = [], created_at = ''2024'',
                 processed_content = ''cat''\<rparr>)],
         index = run real_arithmetic keep_text
                   [Add ''d1'' ''cat'', Add ''d2'' ''cat'', Add ''d3'' ''cat'', Add ''d4'' ''dog'']\<rparr>"
  have c: "strip ''cat'' \<noteq> []" by (simp add: strip_def is_space_def)
  from search_four_documents[of "2 * (- 1)"] obtain idx where
    idx: "search real_arithmetic keep_text (index ?e) ''cat'' (2 * (- 1)) = Inr ([(''d1'', 1)], idx)"
    by (auto simp: slice_to_def)
  have "engine_search real_arithmetic keep_text ?e ''cat'' (- 1) (1 / 100) =
      Inr (take (nat (max 1 (- 1)))
             (resolve_hits (documents ?e)
                (if keep_text ''cat'' \<noteq> [] then py_split (keep_text ''cat'') else [])
                (1 / 100) [(''d1'', 1)]),
           ?e\<lparr>index := idx\<rparr>)"
    unfolding engine_search_eq[OF c] idx by simp
  then show ?thesis
    by (simp add: resolve_hits_def List.map_filter_simps resolve_hit_def)
qed

text \<open>
  The scenario of the specification for \<open>min_score\<close>: a hit of score 0.02 is dropped at
  \<open>min_score = 0.05\<close> and kept at \<open>min_score = 0.01\<close>.
\<close>

lemma min_score_scenario:
  "collect_results [(''d1'', doc)] [] 10 (5 / 100 :: real) [(''d1'', 2 / 100)] [] = [] \<and>
   collect_results [(''d1'', doc)] [] 10 (1 / 100 :: real) [(''d1'', 2 / 100)] []
     = [\<lparr>result_document = doc, score = 2 / 100, matched_keywords = []\<rparr>]"
  by (simp add: get_document_def find_matched_keywords_def)

end
